theory Spec2Isabelle
  imports Complex_Main
begin

section \<open>Numbers: double precision values with their special values\<close>

text \<open>
  The arrays of \<^verbatim>\<open>lab2/algorithm.py\<close> hold numpy \<^verbatim>\<open>float64\<close> values. A value is
  modelled as a real number or one of the three special values of IEEE 754; arithmetic on
  finite values is exact (no rounding, no overflow, one zero, and a division of a nonzero
  finite value by zero takes the sign of the dividend, as a division by \<^verbatim>\<open>0.0\<close> does).
  numpy does not raise on a float division by zero: it returns \<^verbatim>\<open>inf\<close> or \<^verbatim>\<open>nan\<close>
  (and emits a warning), which is what \<open>fdiv\<close> returns.
\<close>

datatype flt = Fin real | PInf | NInf | NaN

fun fneg :: "flt \<Rightarrow> flt" where
  "fneg (Fin a) = Fin (- a)"
| "fneg PInf = NInf"
| "fneg NInf = PInf"
| "fneg NaN = NaN"

fun fadd :: "flt \<Rightarrow> flt \<Rightarrow> flt" where
  "fadd (Fin a) (Fin b) = Fin (a + b)"
| "fadd NaN y = NaN"
| "fadd x NaN = NaN"
| "fadd PInf NInf = NaN"
| "fadd NInf PInf = NaN"
| "fadd PInf y = PInf"
| "fadd x PInf = PInf"
| "fadd NInf y = NInf"
| "fadd x NInf = NInf"

definition inf_sgn :: "real \<Rightarrow> flt" where
  "inf_sgn s = (if 0 < s then PInf else if s < 0 then NInf else NaN)"

fun fsgn :: "flt \<Rightarrow> real" where
  "fsgn (Fin a) = sgn a"
| "fsgn PInf = 1"
| "fsgn NInf = - 1"
| "fsgn NaN = 0"

fun fmul :: "flt \<Rightarrow> flt \<Rightarrow> flt" where
  "fmul (Fin a) (Fin b) = Fin (a * b)"
| "fmul NaN y = NaN"
| "fmul x NaN = NaN"
| "fmul x y = inf_sgn (fsgn x * fsgn y)"

fun fdiv :: "flt \<Rightarrow> flt \<Rightarrow> flt" where
  "fdiv (Fin a) (Fin b) = (if b = 0 then inf_sgn a else Fin (a / b))"
| "fdiv NaN y = NaN"
| "fdiv x NaN = NaN"
| "fdiv (Fin a) y = Fin 0"
| "fdiv x (Fin b) = (if 0 \<le> b then x else fneg x)"
| "fdiv x y = NaN"

fun fless :: "flt \<Rightarrow> flt \<Rightarrow> bool" where
  "fless (Fin a) (Fin b) = (a < b)"
| "fless NaN y = False"
| "fless x NaN = False"
| "fless x NInf = False"
| "fless PInf y = False"
| "fless x y = True"

text \<open>\<^verbatim>\<open>==\<close> on floats: a \<^verbatim>\<open>nan\<close> equals nothing, itself included.\<close>

definition feq :: "flt \<Rightarrow> flt \<Rightarrow> bool" where
  "feq x y = (x \<noteq> NaN \<and> y \<noteq> NaN \<and> x = y)"

fun fsqrt :: "flt \<Rightarrow> flt" where
  "fsqrt (Fin a) = (if a < 0 then NaN else Fin (sqrt a))"
| "fsqrt PInf = PInf"
| "fsqrt NInf = NaN"
| "fsqrt NaN = NaN"

fun finite_flt :: "flt \<Rightarrow> bool" where
  "finite_flt (Fin a) = True"
| "finite_flt x = False"

instantiation flt :: "{zero, one, plus, minus, uminus, times, inverse, ord}"
begin

definition zero_flt_def: "0 = Fin 0"
definition one_flt_def: "1 = Fin 1"
definition plus_flt_def: "x + y = fadd x y"
definition uminus_flt_def: "- x = fneg x"
definition minus_flt_def: "x - y = fadd x (fneg y)"
definition times_flt_def: "x * y = fmul x y"
definition divide_flt_def: "x div y = fdiv x y"
definition inverse_flt_def: "inverse x = fdiv (Fin 1) x"
definition less_flt_def: "x < y = fless x y"
definition less_eq_flt_def: "x \<le> y = (fless x y \<or> feq x y)"

instance ..

end

lemmas flt_arith_defs =
  zero_flt_def one_flt_def plus_flt_def uminus_flt_def minus_flt_def times_flt_def
  divide_flt_def inverse_flt_def less_flt_def less_eq_flt_def feq_def inf_sgn_def

type_synonym vec = "flt list"
type_synonym mat = "flt list list"

section \<open>The external linear algebra facility\<close>

text \<open>
  \<^verbatim>\<open>linalg.eigvals\<close> and \<^verbatim>\<open>linalg.inv\<close> belong to numpy, not to this repository: the
  functions that call them take them as the parameters \<open>eigvals\<close> and \<open>linv\<close>. Both can
  raise \<^verbatim>\<open>LinAlgError\<close>; the eigenvalues they return are finite complex numbers.
\<close>

datatype error = LinAlgError | ValueError

type_synonym eigvals_fn = "mat \<Rightarrow> error + complex list"
type_synonym inv_fn = "mat \<Rightarrow> error + mat"

text \<open>\<^verbatim>\<open>eps = 1e-6\<close>\<close>

definition eps :: flt where
  "eps = Fin (1 / 10 ^ 6)"

text \<open>
  \<^verbatim>\<open>linalg.norm(eigenvalues, ord=inf)\<close> is \<^verbatim>\<open>abs(eigenvalues).max()\<close>, which raises
  \<^verbatim>\<open>ValueError\<close> on an empty array.
\<close>

definition norm_inf :: "complex list \<Rightarrow> error + flt" where
  "norm_inf zs = (if zs = [] then Inl ValueError else Inr (Fin (Max (set (map cmod zs)))))"

section \<open>Dense arrays\<close>

text \<open>
  A vector is the list of its components and a matrix the list of its rows. The numpy
  operations the solvers use are written out; a sum runs from the left, starting at zero.
\<close>

definition square :: "nat \<Rightarrow> mat \<Rightarrow> bool" where
  "square n A = (length A = n \<and> list_all (\<lambda>r. length r = n) A)"

definition all_finite :: "mat \<Rightarrow> bool" where
  "all_finite A = list_all (list_all finite_flt) A"

definition zeros :: "nat \<Rightarrow> vec" where
  "zeros n = replicate n 0"

definition zeros2 :: "nat \<Rightarrow> nat \<Rightarrow> mat" where
  "zeros2 m n = replicate m (zeros n)"

definition eye :: "nat \<Rightarrow> mat" where
  "eye n = map (\<lambda>i. map (\<lambda>j. if i = j then 1 else 0) [0..<n]) [0..<n]"

definition ncols :: "mat \<Rightarrow> nat" where
  "ncols A = (case A of [] \<Rightarrow> 0 | r # _ \<Rightarrow> length r)"

definition col :: "mat \<Rightarrow> nat \<Rightarrow> vec" where
  "col A j = map (\<lambda>r. r ! j) A"

definition set2 :: "mat \<Rightarrow> nat \<Rightarrow> nat \<Rightarrow> flt \<Rightarrow> mat" where
  "set2 A i j v = A[i := (A ! i)[j := v]]"

text \<open>\<^verbatim>\<open>tril(A, -1)\<close> and \<^verbatim>\<open>triu(A, 1)\<close>\<close>

definition tril1 :: "mat \<Rightarrow> mat" where
  "tril1 A = map (\<lambda>i. map (\<lambda>j. if j < i then A ! i ! j else 0) [0..<length (A ! i)]) [0..<length A]"

definition triu1 :: "mat \<Rightarrow> mat" where
  "triu1 A = map (\<lambda>i. map (\<lambda>j. if i < j then A ! i ! j else 0) [0..<length (A ! i)]) [0..<length A]"

definition vadd :: "vec \<Rightarrow> vec \<Rightarrow> vec" where
  "vadd u v = map2 (+) u v"

definition vsub :: "vec \<Rightarrow> vec \<Rightarrow> vec" where
  "vsub u v = map2 (-) u v"

definition vscale :: "flt \<Rightarrow> vec \<Rightarrow> vec" where
  "vscale a v = map (\<lambda>x. a * x) v"

definition madd :: "mat \<Rightarrow> mat \<Rightarrow> mat" where
  "madd A B = map2 vadd A B"

definition msub :: "mat \<Rightarrow> mat \<Rightarrow> mat" where
  "msub A B = map2 vsub A B"

definition mneg :: "mat \<Rightarrow> mat" where
  "mneg A = map (map uminus) A"

definition mscale :: "flt \<Rightarrow> mat \<Rightarrow> mat" where
  "mscale a A = map (vscale a) A"

text \<open>\<^verbatim>\<open>dot\<close> of two vectors, of a matrix and a vector, of a vector and a matrix, of two matrices\<close>

definition dot :: "vec \<Rightarrow> vec \<Rightarrow> flt" where
  "dot u v = foldl (+) 0 (map2 (*) u v)"

definition mat_vec :: "mat \<Rightarrow> vec \<Rightarrow> vec" where
  "mat_vec A x = map (\<lambda>r. dot r x) A"

definition vec_mat :: "vec \<Rightarrow> mat \<Rightarrow> vec" where
  "vec_mat p A = map (\<lambda>j. dot p (col A j)) [0..<ncols A]"

definition mat_mat :: "mat \<Rightarrow> mat \<Rightarrow> mat" where
  "mat_mat A B = map (\<lambda>r. vec_mat r B) A"

definition mat_T :: "mat \<Rightarrow> mat" where
  "mat_T A = map (col A) [0..<ncols A]"

text \<open>\<^verbatim>\<open>linalg.norm(v)\<close>: the square root of \<^verbatim>\<open>dot(v, v)\<close>\<close>

definition norm2 :: "vec \<Rightarrow> flt" where
  "norm2 v = fsqrt (dot v v)"

text \<open>the slice \<^verbatim>\<open>v[lo:hi]\<close>\<close>

definition slice :: "'a list \<Rightarrow> nat \<Rightarrow> nat \<Rightarrow> 'a list" where
  "slice v lo hi = drop lo (take hi v)"

section \<open>Direct solvers\<close>

subsection \<open>\<^verbatim>\<open>pivot_gauss\<close>\<close>

text \<open>
  The two \<^verbatim>\<open>if\<close> statements of the inner loop body, on the working copies \<open>(A, b)\<close>.
  \<^verbatim>\<open>A[[i, j], :] = A[[j, i], :]\<close> reads both rows before it writes them.
\<close>

definition gauss_swap :: "nat \<Rightarrow> nat \<Rightarrow> mat \<times> vec \<Rightarrow> mat \<times> vec" where
  "gauss_swap i j = (\<lambda>(A, b).
     if A ! j ! i > A ! i ! i
     then ((A[i := A ! j])[j := A ! i], (b[i := b ! j])[j := b ! i])
     else (A, b))"

definition gauss_eliminate :: "nat \<Rightarrow> nat \<Rightarrow> nat \<Rightarrow> mat \<times> vec \<Rightarrow> mat \<times> vec" where
  "gauss_eliminate n i j = (\<lambda>(A, b).
     if \<not> feq (A ! j ! i) 0
     then (let m = A ! j ! i / A ! i ! i
           in (A[j := map (\<lambda>c. if i \<le> c \<and> c < n then A ! j ! c - m * A ! i ! c else A ! j ! c)
                        [0..<length (A ! j)]],
               b[j := b ! j - m * b ! i]))
     else (A, b))"

definition gauss_body :: "nat \<Rightarrow> nat \<Rightarrow> nat \<Rightarrow> mat \<times> vec \<Rightarrow> mat \<times> vec" where
  "gauss_body n i j Ab = gauss_eliminate n i j (gauss_swap i j Ab)"

definition forward_elimination :: "nat \<Rightarrow> mat \<times> vec \<Rightarrow> mat \<times> vec" where
  "forward_elimination n Ab = fold (\<lambda>i. fold (gauss_body n i) [i + 1..<n]) [0..<n - 1] Ab"

definition back_step :: "nat \<Rightarrow> mat \<Rightarrow> nat \<Rightarrow> vec \<Rightarrow> vec" where
  "back_step n A k b = b[k := (b ! k - dot (slice (A ! k) (k + 1) n) (slice b (k + 1) n)) / A ! k ! k]"

definition back_substitution :: "nat \<Rightarrow> mat \<Rightarrow> vec \<Rightarrow> vec" where
  "back_substitution n A b = fold (back_step n A) (rev [0..<n]) b"

definition pivot_gauss :: "mat \<Rightarrow> vec \<Rightarrow> vec" where
  "pivot_gauss A b =
     (let n = length A;
          (A', b') = forward_elimination n (A, b)
      in back_substitution n A' b')"

subsection \<open>\<^verbatim>\<open>lu_decomposition_doolittle\<close>\<close>

text \<open>\<^verbatim>\<open>s = 0; for t in range(0, k): s += l[i, t] * u[t, j]\<close>\<close>

definition lu_sum :: "mat \<Rightarrow> mat \<Rightarrow> nat \<Rightarrow> nat \<Rightarrow> nat \<Rightarrow> flt" where
  "lu_sum l u i j k = fold (\<lambda>t s. s + l ! i ! t * u ! t ! j) [0..<k] 0"

definition u_row :: "mat \<Rightarrow> nat \<Rightarrow> nat \<Rightarrow> mat \<Rightarrow> mat \<Rightarrow> mat" where
  "u_row A n k l u = fold (\<lambda>j u. set2 u k j (A ! k ! j - lu_sum l u k j k)) [k..<n] u"

definition l_col :: "mat \<Rightarrow> nat \<Rightarrow> nat \<Rightarrow> mat \<Rightarrow> mat \<Rightarrow> mat" where
  "l_col A n k u l = fold (\<lambda>i l. set2 l i k ((A ! i ! k - lu_sum l u i k k) / u ! k ! k)) [k + 1..<n] l"

definition lu_step :: "mat \<Rightarrow> nat \<Rightarrow> nat \<Rightarrow> mat \<times> mat \<Rightarrow> mat \<times> mat" where
  "lu_step A n k = (\<lambda>(l, u). let u' = u_row A n k l u; l' = l_col A n k u' l in (l', u'))"

definition lu_factor :: "mat \<Rightarrow> mat \<times> mat" where
  "lu_factor A = (let n = length A in fold (lu_step A n) [0..<n] (eye n, zeros2 n n))"

definition forward_sub :: "mat \<Rightarrow> vec \<Rightarrow> nat \<Rightarrow> vec" where
  "forward_sub l b n =
     fold (\<lambda>i y. y[i := b ! i - fold (\<lambda>j s. s + l ! i ! j * y ! j) [0..<i] 0]) [0..<n] (zeros n)"

definition backward_sub :: "mat \<Rightarrow> vec \<Rightarrow> nat \<Rightarrow> vec" where
  "backward_sub u y n =
     fold (\<lambda>i x. x[i := (y ! i - fold (\<lambda>j s. s + u ! i ! j * x ! j) [i + 1..<n] 0) / u ! i ! i])
       (rev [0..<n]) (zeros n)"

definition lu_decomposition_doolittle :: "mat \<Rightarrow> vec \<Rightarrow> vec" where
  "lu_decomposition_doolittle A b =
     (let n = length A;
          (l, u) = lu_factor A;
          y = forward_sub l b n
      in backward_sub u y n)"

section \<open>The convergence analyzer\<close>

text \<open>
  A check returns its verdict together with the lines it printed.
\<close>

definition check_spectral_radius :: "eigvals_fn \<Rightarrow> mat \<Rightarrow> error + (bool \<times> string list)" where
  "check_spectral_radius eigvals B =
     (case eigvals B of
        Inl e \<Rightarrow> Inl e
      | Inr eigenvalues \<Rightarrow>
          (case norm_inf eigenvalues of
             Inl e \<Rightarrow> Inl e
           | Inr spectral_radius \<Rightarrow>
               if spectral_radius - 1 \<ge> eps \<or> 1 - spectral_radius \<le> eps
               then Inr (False, [''Spectral radius >= 1, not convergency''])
               else Inr (True, [])))"

text \<open>\<^verbatim>\<open>D = eye(n); for i in range(n): D[i, i] = A[i, i]\<close>\<close>

definition diag_of :: "mat \<Rightarrow> mat" where
  "diag_of A = fold (\<lambda>i D. set2 D i i (A ! i ! i)) [0..<length A] (eye (length A))"

definition check_gauss_seidel_convergency ::
  "inv_fn \<Rightarrow> eigvals_fn \<Rightarrow> mat \<Rightarrow> error + (bool \<times> string list)" where
  "check_gauss_seidel_convergency linv eigvals A =
     (let D = diag_of A; L = tril1 A; U = triu1 A
      in case linv (madd D L) of
           Inl e \<Rightarrow> Inl e
         | Inr M \<Rightarrow> check_spectral_radius eigvals (mneg (mat_mat M U)))"

definition check_jacobi_convergency ::
  "inv_fn \<Rightarrow> eigvals_fn \<Rightarrow> mat \<Rightarrow> error + (bool \<times> string list)" where
  "check_jacobi_convergency linv eigvals A =
     (let D = diag_of A; L = tril1 A; U = triu1 A
      in case linv D of
           Inl e \<Rightarrow> Inl e
         | Inr M \<Rightarrow> check_spectral_radius eigvals (mneg (mat_mat M (madd L U))))"

definition check_successive_over_relaxation_convergency ::
  "inv_fn \<Rightarrow> eigvals_fn \<Rightarrow> mat \<Rightarrow> flt \<Rightarrow> error + (bool \<times> string list)" where
  "check_successive_over_relaxation_convergency linv eigvals A w =
     (let D = diag_of A; L = tril1 A; U = triu1 A
      in case linv (madd D (mscale w L)) of
           Inl e \<Rightarrow> Inl e
         | Inr M \<Rightarrow> check_spectral_radius eigvals (mat_mat M (msub (mscale (1 - w) D) (mscale w U))))"

text \<open>
  \<^verbatim>\<open>values < 0\<close> on the array of eigenvalues: numpy orders complex numbers by their real
  parts, then by their imaginary parts.
\<close>

definition np_less_zero :: "complex \<Rightarrow> bool" where
  "np_less_zero z = (Re z < 0 \<or> (Re z = 0 \<and> Im z < 0))"

definition all_equal :: "mat \<Rightarrow> mat \<Rightarrow> bool" where
  "all_equal X Y = list_all (\<lambda>(r, s). list_all (\<lambda>(x, y). feq x y) (zip r s)) (zip X Y)"

definition check_symmetric_and_positive_definite_matrix ::
  "eigvals_fn \<Rightarrow> mat \<Rightarrow> error + (bool \<times> string list)" where
  "check_symmetric_and_positive_definite_matrix eigvals A =
     (if \<not> all_equal (mat_T A) A
      then Inr (False, [''A must be symmetric and positive definite matrix''])
      else case eigvals A of
             Inl e \<Rightarrow> Inl e
           | Inr values \<Rightarrow>
               if list_ex np_less_zero values
               then Inr (False, [''A must be symmetric and positive definite matrix''])
               else Inr (True, []))"

section \<open>Iterative solvers\<close>

text \<open>
  A solver returns the pair \<^verbatim>\<open>(NaN, NaN)\<close> (\<open>Sentinel\<close>) or the pair \<^verbatim>\<open>(x, cnt)\<close>
  (\<open>Solved x cnt\<close>), together with the lines printed; it may raise what the library
  raises; and its \<^verbatim>\<open>while True\<close> loop may never reach its \<^verbatim>\<open>break\<close>, which is the
  value \<open>None\<close>.
\<close>

datatype solution = Sentinel | Solved vec nat

type_synonym outcome = "(error + solution \<times> string list) option"

definition after_check :: "error + (bool \<times> string list) \<Rightarrow> (vec \<times> nat) option \<Rightarrow> outcome" where
  "after_check verdict run =
     (case verdict of
        Inl e \<Rightarrow> Some (Inl e)
      | Inr (ok, out) \<Rightarrow>
          if \<not> ok then Some (Inr (Sentinel, out))
          else map_option (\<lambda>(x, cnt). Inr (Solved x cnt, out)) run)"

subsection \<open>\<^verbatim>\<open>gauss_seidel\<close>\<close>

text \<open>\<^verbatim>\<open>s = 0; for j in range(n): if j != i: s += A[i, j] * x[j]\<close>\<close>

definition off_diag_sum :: "mat \<Rightarrow> nat \<Rightarrow> nat \<Rightarrow> vec \<Rightarrow> flt" where
  "off_diag_sum A n i x = fold (\<lambda>j s. if j \<noteq> i then s + A ! i ! j * x ! j else s) [0..<n] 0"

definition gauss_seidel_sweep :: "mat \<Rightarrow> vec \<Rightarrow> nat \<Rightarrow> vec \<Rightarrow> vec" where
  "gauss_seidel_sweep A b n x =
     fold (\<lambda>i x. x[i := (b ! i - off_diag_sum A n i x) / A ! i ! i]) [0..<n] x"

partial_function (option) gauss_seidel_loop ::
  "mat \<Rightarrow> vec \<Rightarrow> nat \<Rightarrow> vec \<Rightarrow> nat \<Rightarrow> (vec \<times> nat) option" where
  "gauss_seidel_loop A b n x cnt =
     (let y = x;
          x = gauss_seidel_sweep A b n x;
          cnt = cnt + 1
      in if norm2 (vsub x y) \<le> eps then Some (x, cnt) else gauss_seidel_loop A b n x cnt)"

definition gauss_seidel :: "inv_fn \<Rightarrow> eigvals_fn \<Rightarrow> mat \<Rightarrow> vec \<Rightarrow> vec \<Rightarrow> outcome" where
  "gauss_seidel linv eigvals A b x0 =
     after_check (check_gauss_seidel_convergency linv eigvals A)
       (gauss_seidel_loop A b (length A) x0 0)"

subsection \<open>\<^verbatim>\<open>jacobi\<close>\<close>

definition jacobi_sweep :: "mat \<Rightarrow> vec \<Rightarrow> nat \<Rightarrow> vec \<Rightarrow> vec \<Rightarrow> vec" where
  "jacobi_sweep A b n y x =
     fold (\<lambda>i x. x[i := (b ! i - off_diag_sum A n i y) / A ! i ! i]) [0..<n] x"

partial_function (option) jacobi_loop ::
  "mat \<Rightarrow> vec \<Rightarrow> nat \<Rightarrow> vec \<Rightarrow> nat \<Rightarrow> (vec \<times> nat) option" where
  "jacobi_loop A b n x cnt =
     (let y = x;
          x = jacobi_sweep A b n y x;
          cnt = cnt + 1
      in if norm2 (vsub x y) \<le> eps then Some (x, cnt) else jacobi_loop A b n x cnt)"

definition jacobi :: "inv_fn \<Rightarrow> eigvals_fn \<Rightarrow> mat \<Rightarrow> vec \<Rightarrow> vec \<Rightarrow> outcome" where
  "jacobi linv eigvals A b x0 =
     after_check (check_jacobi_convergency linv eigvals A)
       (jacobi_loop A b (length A) x0 0)"

subsection \<open>\<^verbatim>\<open>successive_over_relaxation\<close>\<close>

definition sor_sweep :: "mat \<Rightarrow> vec \<Rightarrow> flt \<Rightarrow> nat \<Rightarrow> vec \<Rightarrow> vec" where
  "sor_sweep A b w n x =
     fold (\<lambda>i x. x[i := (1 - w) * x ! i + w * (b ! i - off_diag_sum A n i x) / A ! i ! i]) [0..<n] x"

partial_function (option) sor_loop ::
  "mat \<Rightarrow> vec \<Rightarrow> flt \<Rightarrow> nat \<Rightarrow> vec \<Rightarrow> nat \<Rightarrow> (vec \<times> nat) option" where
  "sor_loop A b w n x cnt =
     (let y = x;
          x = sor_sweep A b w n x;
          cnt = cnt + 1
      in if norm2 (vsub x y) \<le> eps then Some (x, cnt) else sor_loop A b w n x cnt)"

definition successive_over_relaxation ::
  "inv_fn \<Rightarrow> eigvals_fn \<Rightarrow> mat \<Rightarrow> vec \<Rightarrow> flt \<Rightarrow> vec \<Rightarrow> outcome" where
  "successive_over_relaxation linv eigvals A b w x0 =
     after_check (check_successive_over_relaxation_convergency linv eigvals A w)
       (sor_loop A b w (length A) x0 0)"

subsection \<open>\<^verbatim>\<open>conjugate_gradient\<close>\<close>

text \<open>One pass through the body of the loop, on \<open>(x, r, p)\<close>.\<close>

definition cg_sweep :: "mat \<Rightarrow> vec \<times> vec \<times> vec \<Rightarrow> vec \<times> vec \<times> vec" where
  "cg_sweep A = (\<lambda>(x, r, p).
     let alpha = dot r r / dot (vec_mat p A) p;
         x = vadd x (vscale alpha p);
         old_r = r;
         r = vsub r (mat_vec (mscale alpha A) p);
         beta = dot r r / dot old_r old_r;
         p = vadd r (vscale beta p)
     in (x, r, p))"

partial_function (option) cg_loop ::
  "mat \<Rightarrow> vec \<times> vec \<times> vec \<Rightarrow> nat \<Rightarrow> (vec \<times> nat) option" where
  "cg_loop A xrp cnt =
     (let y = fst xrp;
          xrp = cg_sweep A xrp;
          cnt = cnt + 1
      in if norm2 (vsub (fst xrp) y) \<le> eps then Some (fst xrp, cnt) else cg_loop A xrp cnt)"

definition conjugate_gradient :: "eigvals_fn \<Rightarrow> mat \<Rightarrow> vec \<Rightarrow> vec \<Rightarrow> outcome" where
  "conjugate_gradient eigvals A b x0 =
     after_check (check_symmetric_and_positive_definite_matrix eigvals A)
       (let x = x0;
            r = vsub b (mat_vec A x);
            p = r
        in cg_loop A (x, r, p) 1)"

section \<open>Arrays as objects\<close>

text \<open>
  A numpy array is an object and a Python name holds a reference to it:
  \<^verbatim>\<open>A[...] = ...\<close> changes the object that \<open>A\<close> refers to, for every holder of that
  reference, while \<^verbatim>\<open>A.copy()\<close> and an arithmetic expression make a new object. The store
  is the list of all arrays made so far and a reference is a position in it; a new array
  goes to the end. The solvers are written once more over the store, each loop body being
  the body of the value-level solver above applied to the arrays its names refer to, with
  every assignment into an array written to the store at that reference. Temporaries that
  no name keeps are left out.
\<close>

datatype ndarray = Vec vec | Mat mat

type_synonym ref = nat
type_synonym store = "ndarray list"

fun the_vec :: "ndarray \<Rightarrow> vec" where
  "the_vec (Vec v) = v"
| "the_vec (Mat m) = []"

fun the_mat :: "ndarray \<Rightarrow> mat" where
  "the_mat (Mat m) = m"
| "the_mat (Vec v) = []"

definition get_vec :: "store \<Rightarrow> ref \<Rightarrow> vec" where
  "get_vec s r = the_vec (s ! r)"

definition get_mat :: "store \<Rightarrow> ref \<Rightarrow> mat" where
  "get_mat s r = the_mat (s ! r)"

definition alloc :: "ndarray \<Rightarrow> store \<Rightarrow> ref \<times> store" where
  "alloc a s = (length s, s @ [a])"

text \<open>\<^verbatim>\<open>A.copy()\<close>\<close>

definition copy_arr :: "ref \<Rightarrow> store \<Rightarrow> ref \<times> store" where
  "copy_arr r s = alloc (s ! r) s"

text \<open>an assignment into the array at \<open>r\<close>, which afterwards holds \<open>a\<close>\<close>

definition put :: "ref \<Rightarrow> ndarray \<Rightarrow> store \<Rightarrow> store" where
  "put r a s = s[r := a]"

subsection \<open>\<^verbatim>\<open>pivot_gauss\<close> on the store\<close>

definition gauss_body_h :: "nat \<Rightarrow> ref \<Rightarrow> ref \<Rightarrow> nat \<Rightarrow> nat \<Rightarrow> store \<Rightarrow> store" where
  "gauss_body_h n A b i j s =
     (let (A', b') = gauss_body n i j (get_mat s A, get_vec s b)
      in put b (Vec b') (put A (Mat A') s))"

definition back_step_h :: "nat \<Rightarrow> ref \<Rightarrow> ref \<Rightarrow> nat \<Rightarrow> store \<Rightarrow> store" where
  "back_step_h n A b k s = put b (Vec (back_step n (get_mat s A) k (get_vec s b))) s"

definition pivot_gauss_h :: "ref \<Rightarrow> ref \<Rightarrow> store \<Rightarrow> ref \<times> store" where
  "pivot_gauss_h A b s =
     (let (A, s) = copy_arr A s;
          (b, s) = copy_arr b s;
          n = length (get_mat s A);
          s = fold (\<lambda>i. fold (gauss_body_h n A b i) [i + 1..<n]) [0..<n - 1] s;
          s = fold (back_step_h n A b) (rev [0..<n]) s;
          x = b
      in (x, s))"

subsection \<open>\<^verbatim>\<open>lu_decomposition_doolittle\<close> on the store\<close>

definition lu_step_h :: "ref \<Rightarrow> nat \<Rightarrow> ref \<Rightarrow> ref \<Rightarrow> nat \<Rightarrow> store \<Rightarrow> store" where
  "lu_step_h A n l u k s =
     (let (l', u') = lu_step (get_mat s A) n k (get_mat s l, get_mat s u)
      in put l (Mat l') (put u (Mat u') s))"

definition lu_decomposition_doolittle_h :: "ref \<Rightarrow> ref \<Rightarrow> store \<Rightarrow> ref \<times> store" where
  "lu_decomposition_doolittle_h A b s =
     (let (A, s) = copy_arr A s;
          (b, s) = copy_arr b s;
          n = length (get_mat s A);
          (l, s) = alloc (Mat (eye n)) s;
          (u, s) = alloc (Mat (zeros2 n n)) s;
          s = fold (lu_step_h A n l u) [0..<n] s;
          (y, s) = alloc (Vec (zeros n)) s;
          s = put y (Vec (forward_sub (get_mat s l) (get_vec s b) n)) s;
          (x, s) = alloc (Vec (zeros n)) s;
          s = put x (Vec (backward_sub (get_mat s u) (get_vec s y) n)) s
      in (x, s))"

subsection \<open>The iterative solvers on the store\<close>

datatype solution_ref = SentinelR | SolvedR ref nat

type_synonym outcome_h = "((error + solution_ref \<times> string list) \<times> store) option"

definition after_check_h ::
  "error + (bool \<times> string list) \<Rightarrow> store \<Rightarrow> (store \<Rightarrow> ((ref \<times> nat) \<times> store) option) \<Rightarrow> outcome_h" where
  "after_check_h verdict s run =
     (case verdict of
        Inl e \<Rightarrow> Some (Inl e, s)
      | Inr (ok, out) \<Rightarrow>
          if \<not> ok then Some (Inr (SentinelR, out), s)
          else map_option (\<lambda>((x, cnt), s). (Inr (SolvedR x cnt, out), s)) (run s))"

partial_function (option) gauss_seidel_loop_h ::
  "ref \<Rightarrow> ref \<Rightarrow> nat \<Rightarrow> ref \<Rightarrow> nat \<Rightarrow> store \<Rightarrow> ((ref \<times> nat) \<times> store) option" where
  "gauss_seidel_loop_h A b n x cnt s =
     (let (y, s) = copy_arr x s;
          s = put x (Vec (gauss_seidel_sweep (get_mat s A) (get_vec s b) n (get_vec s x))) s;
          cnt = cnt + 1
      in if norm2 (vsub (get_vec s x) (get_vec s y)) \<le> eps then Some ((x, cnt), s)
         else gauss_seidel_loop_h A b n x cnt s)"

definition gauss_seidel_h :: "inv_fn \<Rightarrow> eigvals_fn \<Rightarrow> ref \<Rightarrow> ref \<Rightarrow> ref \<Rightarrow> store \<Rightarrow> outcome_h" where
  "gauss_seidel_h linv eigvals A b x0 s =
     (let (A, s) = copy_arr A s;
          (b, s) = copy_arr b s
      in after_check_h (check_gauss_seidel_convergency linv eigvals (get_mat s A)) s
           (\<lambda>s. let n = length (get_mat s A);
                    (x, s) = copy_arr x0 s
                in gauss_seidel_loop_h A b n x 0 s))"

partial_function (option) jacobi_loop_h ::
  "ref \<Rightarrow> ref \<Rightarrow> nat \<Rightarrow> ref \<Rightarrow> nat \<Rightarrow> store \<Rightarrow> ((ref \<times> nat) \<times> store) option" where
  "jacobi_loop_h A b n x cnt s =
     (let (y, s) = copy_arr x s;
          s = put x (Vec (jacobi_sweep (get_mat s A) (get_vec s b) n (get_vec s y) (get_vec s x))) s;
          cnt = cnt + 1
      in if norm2 (vsub (get_vec s x) (get_vec s y)) \<le> eps then Some ((x, cnt), s)
         else jacobi_loop_h A b n x cnt s)"

definition jacobi_h :: "inv_fn \<Rightarrow> eigvals_fn \<Rightarrow> ref \<Rightarrow> ref \<Rightarrow> ref \<Rightarrow> store \<Rightarrow> outcome_h" where
  "jacobi_h linv eigvals A b x0 s =
     (let (A, s) = copy_arr A s;
          (b, s) = copy_arr b s
      in after_check_h (check_jacobi_convergency linv eigvals (get_mat s A)) s
           (\<lambda>s. let n = length (get_mat s A);
                    (x, s) = copy_arr x0 s
                in jacobi_loop_h A b n x 0 s))"

partial_function (option) sor_loop_h ::
  "ref \<Rightarrow> ref \<Rightarrow> flt \<Rightarrow> nat \<Rightarrow> ref \<Rightarrow> nat \<Rightarrow> store \<Rightarrow> ((ref \<times> nat) \<times> store) option" where
  "sor_loop_h A b w n x cnt s =
     (let (y, s) = copy_arr x s;
          s = put x (Vec (sor_sweep (get_mat s A) (get_vec s b) w n (get_vec s x))) s;
          cnt = cnt + 1
      in if norm2 (vsub (get_vec s x) (get_vec s y)) \<le> eps then Some ((x, cnt), s)
         else sor_loop_h A b w n x cnt s)"

definition successive_over_relaxation_h ::
  "inv_fn \<Rightarrow> eigvals_fn \<Rightarrow> ref \<Rightarrow> ref \<Rightarrow> flt \<Rightarrow> ref \<Rightarrow> store \<Rightarrow> outcome_h" where
  "successive_over_relaxation_h linv eigvals A b w x0 s =
     (let (A, s) = copy_arr A s;
          (b, s) = copy_arr b s
      in after_check_h (check_successive_over_relaxation_convergency linv eigvals (get_mat s A) w) s
           (\<lambda>s. let n = length (get_mat s A);
                    (x, s) = copy_arr x0 s
                in sor_loop_h A b w n x 0 s))"

text \<open>
  \<^verbatim>\<open>conjugate_gradient\<close> assigns into no array: \<^verbatim>\<open>x = x + ...\<close>, \<^verbatim>\<open>r = r - ...\<close> and
  \<^verbatim>\<open>p = r + ...\<close> bind the names to new arrays, so \<^verbatim>\<open>y = x\<close> keeps the iterate before.
\<close>

partial_function (option) cg_loop_h ::
  "ref \<Rightarrow> ref \<Rightarrow> ref \<Rightarrow> ref \<Rightarrow> nat \<Rightarrow> store \<Rightarrow> ((ref \<times> nat) \<times> store) option" where
  "cg_loop_h A x r p cnt s =
     (let y = x;
          (x', r', p') = cg_sweep (get_mat s A) (get_vec s x, get_vec s r, get_vec s p);
          (x, s) = alloc (Vec x') s;
          (r, s) = alloc (Vec r') s;
          (p, s) = alloc (Vec p') s;
          cnt = cnt + 1
      in if norm2 (vsub (get_vec s x) (get_vec s y)) \<le> eps then Some ((x, cnt), s)
         else cg_loop_h A x r p cnt s)"

definition conjugate_gradient_h :: "eigvals_fn \<Rightarrow> ref \<Rightarrow> ref \<Rightarrow> ref \<Rightarrow> store \<Rightarrow> outcome_h" where
  "conjugate_gradient_h eigvals A b x0 s =
     (let (A, s) = copy_arr A s;
          (b, s) = copy_arr b s
      in after_check_h (check_symmetric_and_positive_definite_matrix eigvals (get_mat s A)) s
           (\<lambda>s. let (x, s) = copy_arr x0 s;
                    (r, s) = alloc (Vec (vsub (get_vec s b) (mat_vec (get_mat s A) (get_vec s x)))) s;
                    p = r
                in cg_loop_h A x r p 1 s))"

section \<open>Vocabulary of the claims\<close>

text \<open>The rejection test of \<^verbatim>\<open>check_spectral_radius\<close>, on its own.\<close>

definition reject_radius :: "flt \<Rightarrow> bool" where
  "reject_radius r = (r - 1 \<ge> eps \<or> 1 - r \<le> eps)"

text \<open>\<^verbatim>\<open>(A.T == A).all()\<close> on a square matrix, entry by entry.\<close>

definition symmetric_np :: "nat \<Rightarrow> mat \<Rightarrow> bool" where
  "symmetric_np n A = (\<forall>i<n. \<forall>j<n. feq (A ! j ! i) (A ! i ! j))"

text \<open>The test that ends a \<^verbatim>\<open>while True\<close> loop: \<^verbatim>\<open>linalg.norm(x - y) <= eps\<close>.\<close>

definition stop_test :: "vec \<Rightarrow> vec \<Rightarrow> bool" where
  "stop_test y x = (norm2 (vsub x y) \<le> eps)"

text \<open>
  A loop that starts in state \<open>s\<close> runs its body exactly \<open>k\<close> times: the test fails after
  each of the first \<open>k - 1\<close> sweeps and holds after sweep \<open>k\<close>.
\<close>

definition runs_sweeps :: "('s \<Rightarrow> 's) \<Rightarrow> ('s \<Rightarrow> vec) \<Rightarrow> 's \<Rightarrow> nat \<Rightarrow> bool" where
  "runs_sweeps step proj s k =
     (1 \<le> k
      \<and> stop_test (proj ((step ^^ (k - 1)) s)) (proj ((step ^^ k) s))
      \<and> (\<forall>j<k. 1 \<le> j \<longrightarrow> \<not> stop_test (proj ((step ^^ (j - 1)) s)) (proj ((step ^^ j) s))))"

text \<open>A sum of products, added from the left as the loops add it.\<close>

definition fsum :: "flt list \<Rightarrow> flt" where
  "fsum xs = foldl (+) 0 xs"

text \<open>The pairs \<open>(i, j)\<close> the two loops of \<^verbatim>\<open>pivot_gauss\<close> visit, in their order.\<close>

definition pivot_pairs :: "nat \<Rightarrow> (nat \<times> nat) list" where
  "pivot_pairs n = concat (map (\<lambda>i. map (Pair i) [i + 1..<n]) [0..<n - 1])"

text \<open>The magnitude \<^verbatim>\<open>abs(x)\<close>, which partial pivoting would compare.\<close>

fun fabs :: "flt \<Rightarrow> flt" where
  "fabs (Fin a) = Fin \<bar>a\<bar>"
| "fabs PInf = PInf"
| "fabs NInf = PInf"
| "fabs NaN = NaN"

text \<open>
  What holds of \<open>l\<close> and \<open>u\<close> after \<open>k\<close> passes of the outer loop of
  \<^verbatim>\<open>lu_decomposition_doolittle\<close>: the entries written so far obey the recurrence, the
  others are still those of \<^verbatim>\<open>eye(n)\<close> and \<^verbatim>\<open>zeros((n, n))\<close>.
\<close>

definition lu_inv :: "nat \<Rightarrow> mat \<Rightarrow> nat \<Rightarrow> mat \<Rightarrow> mat \<Rightarrow> bool" where
  "lu_inv n A k l u =
     (square n l \<and> square n u
      \<and> (\<forall>i<n. \<forall>j<n. k \<le> j \<or> i \<le> j \<longrightarrow> l ! i ! j = (if i = j then 1 else 0))
      \<and> (\<forall>i<n. \<forall>j<n. k \<le> i \<or> j < i \<longrightarrow> u ! i ! j = 0)
      \<and> (\<forall>i<k. \<forall>j<n. i \<le> j \<longrightarrow> u ! i ! j = A ! i ! j - lu_sum l u i j i)
      \<and> (\<forall>j<k. \<forall>i<n. j < i \<longrightarrow> l ! i ! j = (A ! i ! j - lu_sum l u i j j) / u ! j ! j))"

text \<open>
  Every array of the store \<open>s\<close> below position \<open>N\<close> is the same in \<open>s'\<close>, and no array
  has disappeared.
\<close>

definition unchanged_below :: "nat \<Rightarrow> store \<Rightarrow> store \<Rightarrow> bool" where
  "unchanged_below N s s' = (length s \<le> length s' \<and> (\<forall>a<N. s' ! a = s ! a))"

text \<open>
  What the caller sees of a result on the store: the arrays behind the references.
\<close>

definition view_outcome :: "outcome_h \<Rightarrow> outcome" where
  "view_outcome r =
     map_option (\<lambda>(res, s').
       case res of
         Inl e \<Rightarrow> Inl e
       | Inr (SentinelR, out) \<Rightarrow> Inr (Sentinel, out)
       | Inr (SolvedR x cnt, out) \<Rightarrow> Inr (Solved (get_vec s' x) cnt, out)) r"

text \<open>
  In the store \<open>s\<close> the names \<open>A\<close>, \<open>b\<close> and \<open>x\<close> of a loop refer to arrays holding \<open>Am\<close>,
  \<open>bv\<close> and \<open>xv\<close>, and \<open>x\<close> is an array of its own.
\<close>

definition bound_to :: "store \<Rightarrow> ref \<Rightarrow> mat \<Rightarrow> ref \<Rightarrow> vec \<Rightarrow> ref \<Rightarrow> vec \<Rightarrow> bool" where
  "bound_to s A Am b bv x xv =
     (A < length s \<and> b < length s \<and> x < length s \<and> A \<noteq> x \<and> b \<noteq> x
      \<and> s ! A = Mat Am \<and> s ! b = Vec bv \<and> s ! x = Vec xv)"

text \<open>The reference \<open>r\<close> is one of the store \<open>s\<close> and the array behind it is \<open>a\<close>.\<close>

definition holds :: "store \<Rightarrow> ref \<Rightarrow> ndarray \<Rightarrow> bool" where
  "holds s r a = (r < length s \<and> s ! r = a)"

section \<open>Inputs for the examples\<close>

text \<open>
  The inverse and the eigenvalues of the few matrices the examples need, standing for the
  library on these inputs.
\<close>

definition A2 :: mat where "A2 = [[Fin 1, Fin 2], [Fin 2, Fin 1]]"

definition linv2 :: inv_fn where
  "linv2 M = (if M = [[Fin 1, Fin 0], [Fin 0, Fin 1]] then Inr [[Fin 1, Fin 0], [Fin 0, Fin 1]]
              else if M = [[Fin 1, Fin 0], [Fin 2, Fin 1]] then Inr [[Fin 1, Fin 0], [Fin (- 2), Fin 1]]
              else Inl LinAlgError)"

definition eigvals2 :: eigvals_fn where
  "eigvals2 B = (if B = [[Fin 0, Fin (- 2)], [Fin (- 2), Fin 0]] then Inr [2, - 2]
                 else if B = [[Fin 0, Fin (- 2)], [Fin 0, Fin 4]] then Inr [0, 4]
                 else Inl LinAlgError)"

definition linv1 :: inv_fn where
  "linv1 M = (if M = [[Fin 1]] then Inr [[Fin 1]] else Inl LinAlgError)"

definition eigvals1 :: eigvals_fn where
  "eigvals1 B = (if B = [[Fin 0]] then Inr [0]
                 else if B = [[Fin (- (1 / 2))]] then Inr [- (1 / 2)]
                 else if B = [[Fin 1]] then Inr [1]
                 else Inl LinAlgError)"

definition eigvals_sym :: eigvals_fn where
  "eigvals_sym B = (if B = [[Fin 2, Fin 1], [Fin 1, Fin 2]] then Inr [3, 1] else Inl LinAlgError)"

text \<open>A store holding a 1 by 1 system: \<open>A\<close> at 0, \<open>b\<close> at 1 and \<open>x0\<close> at 2.\<close>

definition store1 :: "real \<Rightarrow> store" where
  "store1 x0 = [Mat [[Fin 1]], Vec [Fin 1], Vec [Fin x0]]"

section \<open>Facts about the verdict\<close>

lemma reject_radius_Fin: "reject_radius (Fin r) = (r - 1 \<ge> 1 / 10 ^ 6 \<or> 1 - r \<le> 1 / 10 ^ 6)"
  by (auto simp: reject_radius_def eps_def flt_arith_defs)

text \<open>
  C1. For a square matrix \<open>B\<close> whose eigenvalues \<open>ev\<close> the library returns (at least one,
  as for every matrix of positive size), \<open>check_spectral_radius\<close> takes the largest modulus
  \<open>\<rho>\<close> of \<open>ev\<close>, answers True unless \<open>\<rho> - 1 \<ge> eps\<close> or \<open>1 - \<rho> \<le> eps\<close>, that is, exactly when
  \<open>\<rho> < 1 - eps\<close>; every radius in \<open>[1 - eps, \<infinity>)\<close> is rejected.
\<close>

theorem check_spectral_radius_verdict:
  assumes "eigvals B = Inr ev" and "ev \<noteq> []"
  defines "\<rho> \<equiv> Max (set (map cmod ev))"
  shows "map_sum id fst (check_spectral_radius eigvals B)
           = Inr (\<not> (\<rho> - 1 \<ge> 1 / 10 ^ 6 \<or> 1 - \<rho> \<le> 1 / 10 ^ 6))
         \<and> map_sum id fst (check_spectral_radius eigvals B) = Inr (\<rho> < 1 - 1 / 10 ^ 6)
         \<and> (1 - 1 / 10 ^ 6 \<le> \<rho> \<longrightarrow> map_sum id fst (check_spectral_radius eigvals B) = Inr False)"
proof -
  have n: "norm_inf ev = Inr (Fin \<rho>)"
    using assms(2) by (simp add: norm_inf_def \<rho>_def)
  have c: "map_sum id fst (check_spectral_radius eigvals B) = Inr (\<not> reject_radius (Fin \<rho>))"
    using assms(1) n by (simp add: check_spectral_radius_def reject_radius_def)
  show ?thesis
    unfolding c reject_radius_Fin by auto
qed

theorem check_spectral_radius_verdict_witness:
  "map_sum id fst (check_spectral_radius (\<lambda>B. Inr [Complex (1 / 2) 0, Complex 0 (1 / 4)]) [[Fin (1 / 2), Fin 0], [Fin 0, Fin (1 / 4)]])
     = Inr True"
  using check_spectral_radius_verdict
    [of "\<lambda>B. Inr [Complex (1 / 2) 0, Complex 0 (1 / 4)]" "[[Fin (1 / 2), Fin 0], [Fin 0, Fin (1 / 4)]]"
        "[Complex (1 / 2) 0, Complex 0 (1 / 4)]"]
  by (simp add: cmod_def)

lemma ncols_square: "square n A \<Longrightarrow> 0 < n \<Longrightarrow> ncols A = n"
  by (cases A) (auto simp: square_def ncols_def)

lemma square_row: "square n A \<Longrightarrow> i < n \<Longrightarrow> length (A ! i) = n"
  by (auto simp: square_def list_all_length)

lemma all_equal_T:
  assumes "square n A"
  shows "all_equal (mat_T A) A = symmetric_np n A"
proof (cases "n = 0")
  case True
  then show ?thesis using assms by (simp add: square_def all_equal_def symmetric_np_def)
next
  case False
  then have nc: "ncols A = n" using assms ncols_square by simp
  have len: "length A = n" using assms by (simp add: square_def)
  show ?thesis
    unfolding all_equal_def symmetric_np_def mat_T_def nc col_def
    using len assms
    by (auto simp: list_all_length square_row)
qed

lemma after_check_False:
  "after_check (Inr (False, out)) run = Some (Inr (Sentinel, out))"
  by (simp add: after_check_def)

text \<open>
  C3. When the convergence check of a solver answers False, the solver returns the sentinel
  pair (with the line the check printed) whatever \<open>b\<close> and \<open>x0\<close> are: no sweep is run and
  \<open>x0\<close> is not looked at.
\<close>

theorem not_convergent_sentinel:
  "(check_jacobi_convergency linv eigvals A = Inr (False, out) \<longrightarrow>
      jacobi linv eigvals A b x0 = Some (Inr (Sentinel, out)))
   \<and> (check_gauss_seidel_convergency linv eigvals A = Inr (False, out) \<longrightarrow>
      gauss_seidel linv eigvals A b x0 = Some (Inr (Sentinel, out)))
   \<and> (check_successive_over_relaxation_convergency linv eigvals A w = Inr (False, out) \<longrightarrow>
      successive_over_relaxation linv eigvals A b w x0 = Some (Inr (Sentinel, out)))"
  by (simp add: jacobi_def gauss_seidel_def successive_over_relaxation_def after_check_False)


lemmas flt_ops =
  zero_flt_def one_flt_def plus_flt_def uminus_flt_def minus_flt_def times_flt_def
  divide_flt_def inverse_flt_def inf_sgn_def

lemmas flt_cmp = less_flt_def less_eq_flt_def feq_def

lemmas arr_eval =
  diag_of_def eye_def set2_def mneg_def mat_mat_def madd_def msub_def mscale_def vscale_def
  tril1_def triu1_def vec_mat_def mat_vec_def dot_def col_def ncols_def vadd_def vsub_def
  flt_ops upt_rec

lemmas mat_eval = arr_eval flt_cmp

lemma check_jacobi_A2:
  "check_jacobi_convergency linv2 eigvals2 A2 = Inr (False, [''Spectral radius >= 1, not convergency''])"
  by (simp add: check_jacobi_convergency_def A2_def linv2_def eigvals2_def mat_eval
      check_spectral_radius_def norm_inf_def eps_def)

lemma check_gauss_seidel_A2:
  "check_gauss_seidel_convergency linv2 eigvals2 A2 = Inr (False, [''Spectral radius >= 1, not convergency''])"
  by (simp add: check_gauss_seidel_convergency_def A2_def linv2_def eigvals2_def mat_eval
      check_spectral_radius_def norm_inf_def eps_def)

lemma check_sor_A2:
  "check_successive_over_relaxation_convergency linv2 eigvals2 A2 1 = Inr (False, [''Spectral radius >= 1, not convergency''])"
  by (simp add: check_successive_over_relaxation_convergency_def A2_def linv2_def eigvals2_def mat_eval
      check_spectral_radius_def norm_inf_def eps_def)

theorem not_convergent_sentinel_witness:
  "jacobi linv2 eigvals2 A2 [Fin 1, Fin 1] [Fin 0, Fin 0]
     = Some (Inr (Sentinel, [''Spectral radius >= 1, not convergency'']))
   \<and> gauss_seidel linv2 eigvals2 A2 [Fin 1, Fin 1] [Fin 0, Fin 0]
     = Some (Inr (Sentinel, [''Spectral radius >= 1, not convergency'']))
   \<and> successive_over_relaxation linv2 eigvals2 A2 [Fin 1, Fin 1] 1 [Fin 0, Fin 0]
     = Some (Inr (Sentinel, [''Spectral radius >= 1, not convergency'']))"
  using not_convergent_sentinel [of linv2 eigvals2 A2 "[''Spectral radius >= 1, not convergency'']"
      "[Fin 1, Fin 1]" "[Fin 0, Fin 0]" 1]
    check_jacobi_A2 check_gauss_seidel_A2 check_sor_A2
  by simp


lemmas jacobi_loop_induct =
  jacobi_loop.raw_induct [where xa = "((((A, b), n), x), cnt)" for A b n x cnt, unfolded prod.case]

lemma runs_sweeps_first:
  "stop_test (proj s) (proj (step s)) \<Longrightarrow> runs_sweeps step proj s 1"
  by (simp add: runs_sweeps_def)

lemma runs_sweeps_next:
  assumes "\<not> stop_test (proj s) (proj (step s))" and "runs_sweeps step proj (step s) k"
  shows "runs_sweeps step proj s (Suc k)"
proof -
  have k: "1 \<le> k" using assms(2) by (simp add: runs_sweeps_def)
  have a: "stop_test (proj ((step ^^ (Suc k - 1)) s)) (proj ((step ^^ Suc k) s))"
    using assms(2) k unfolding runs_sweeps_def
    by (cases k) (simp_all add: funpow_swap1)
  have b: "\<not> stop_test (proj ((step ^^ (j - 1)) s)) (proj ((step ^^ j) s))"
    if "j < Suc k" "1 \<le> j" for j
  proof (cases "j = 1")
    case True
    then show ?thesis using assms(1) by simp
  next
    case False
    with that obtain i where i: "j = Suc i" "1 \<le> i" "i < k" by (cases j) auto
    then obtain i' where i': "i = Suc i'" by (cases i) auto
    have "\<not> stop_test (proj ((step ^^ (i - 1)) (step s))) (proj ((step ^^ i) (step s)))"
      using assms(2) i unfolding runs_sweeps_def by blast
    then show ?thesis using i i' by (simp add: funpow_swap1)
  qed
  show ?thesis unfolding runs_sweeps_def using a b by auto
qed

lemma do_while_step:
  assumes IH: "\<And>s c r. loop s c = Some r \<Longrightarrow>
             \<exists>k. runs_sweeps step proj s k \<and> r = (proj ((step ^^ k) s), c + k)"
    and eq: "(if stop_test (proj s) (proj (step s)) then Some (proj (step s), c + 1)
              else loop (step s) (c + 1)) = Some r"
  shows "\<exists>k. runs_sweeps step proj s k \<and> r = (proj ((step ^^ k) s), c + k)"
proof (cases "stop_test (proj s) (proj (step s))")
  case True
  then have "r = (proj (step s), c + 1)" using eq by simp
  moreover have "runs_sweeps step proj s 1" using True by (rule runs_sweeps_first)
  ultimately show ?thesis by (intro exI[of _ 1]) simp
next
  case False
  then have "loop (step s) (c + 1) = Some r" using eq by simp
  from IH[OF this] obtain k where
    k: "runs_sweeps step proj (step s) k" "r = (proj ((step ^^ k) (step s)), c + 1 + k)" by blast
  have "runs_sweeps step proj s (Suc k)" using False k(1) by (rule runs_sweeps_next)
  then show ?thesis using k(2) by (intro exI[of _ "Suc k"]) (simp add: funpow_swap1)
qed

lemma jacobi_loop_count:
  assumes "jacobi_loop A b n x cnt = Some r"
  shows "\<exists>k. runs_sweeps (\<lambda>x. jacobi_sweep A b n x x) (\<lambda>x. x) x k
       \<and> r = (((\<lambda>x. jacobi_sweep A b n x x) ^^ k) x, cnt + k)"
proof (rule jacobi_loop_induct
    [where P = "\<lambda>A b n x cnt r. \<exists>k. runs_sweeps (\<lambda>x. jacobi_sweep A b n x x) (\<lambda>x. x) x k
       \<and> r = (((\<lambda>x. jacobi_sweep A b n x x) ^^ k) x, cnt + k)", OF _ assms])
  fix loop A b n x cnt r
  assume IH: "\<And>A b n x cnt r. loop A b n x cnt = Some r \<Longrightarrow>
      \<exists>k. runs_sweeps (\<lambda>x. jacobi_sweep A b n x x) (\<lambda>x. x) x k
       \<and> r = (((\<lambda>x. jacobi_sweep A b n x x) ^^ k) x, cnt + k)"
    and eq: "(let y = x; x = jacobi_sweep A b n y x; cnt = cnt + 1
          in if norm2 (vsub x y) \<le> eps then Some (x, cnt) else loop A b n x cnt) = Some r"
  show "\<exists>k. runs_sweeps (\<lambda>x. jacobi_sweep A b n x x) (\<lambda>x. x) x k
       \<and> r = (((\<lambda>x. jacobi_sweep A b n x x) ^^ k) x, cnt + k)"
  proof (rule do_while_step [where loop = "loop A b n" and proj = "\<lambda>x. x"])
    show "(if stop_test x (jacobi_sweep A b n x x) then Some (jacobi_sweep A b n x x, cnt + 1) else loop A b n (jacobi_sweep A b n x x) (cnt + 1)) = Some r"
      using eq by (auto simp: stop_test_def Let_def split: if_splits)
  qed (rule IH)
qed

lemmas gauss_seidel_loop_induct =
  gauss_seidel_loop.raw_induct [where xa = "((((A, b), n), x), cnt)" for A b n x cnt, unfolded prod.case]

lemma gauss_seidel_loop_count:
  assumes "gauss_seidel_loop A b n x cnt = Some r"
  shows "\<exists>k. runs_sweeps (gauss_seidel_sweep A b n) (\<lambda>x. x) x k
       \<and> r = ((gauss_seidel_sweep A b n ^^ k) x, cnt + k)"
proof (rule gauss_seidel_loop_induct
    [where P = "\<lambda>A b n x cnt r. \<exists>k. runs_sweeps (gauss_seidel_sweep A b n) (\<lambda>x. x) x k
       \<and> r = ((gauss_seidel_sweep A b n ^^ k) x, cnt + k)", OF _ assms])
  fix loop A b n x cnt r
  assume IH: "\<And>A b n x cnt r. loop A b n x cnt = Some r \<Longrightarrow>
      \<exists>k. runs_sweeps (gauss_seidel_sweep A b n) (\<lambda>x. x) x k
       \<and> r = ((gauss_seidel_sweep A b n ^^ k) x, cnt + k)"
    and eq: "(let y = x; x = gauss_seidel_sweep A b n x; cnt = cnt + 1
          in if norm2 (vsub x y) \<le> eps then Some (x, cnt) else loop A b n x cnt) = Some r"
  show "\<exists>k. runs_sweeps (gauss_seidel_sweep A b n) (\<lambda>x. x) x k
       \<and> r = ((gauss_seidel_sweep A b n ^^ k) x, cnt + k)"
  proof (rule do_while_step [where loop = "loop A b n" and proj = "\<lambda>x. x"])
    show "(if stop_test x (gauss_seidel_sweep A b n x) then Some (gauss_seidel_sweep A b n x, cnt + 1) else loop A b n (gauss_seidel_sweep A b n x) (cnt + 1)) = Some r"
      using eq by (auto simp: stop_test_def Let_def split: if_splits)
  qed (rule IH)
qed


lemma cg_loop_count:
  assumes "cg_loop A xrp cnt = Some r"
  shows "\<exists>k. runs_sweeps (cg_sweep A) fst xrp k \<and> r = (fst ((cg_sweep A ^^ k) xrp), cnt + k)"
proof (rule cg_loop.raw_induct
    [where P = "\<lambda>A xrp cnt r. \<exists>k. runs_sweeps (cg_sweep A) fst xrp k
        \<and> r = (fst ((cg_sweep A ^^ k) xrp), cnt + k)", OF _ assms])
  fix loop A xrp cnt r
  assume IH: "\<And>A xrp cnt r. loop A xrp cnt = Some r \<Longrightarrow>
      \<exists>k. runs_sweeps (cg_sweep A) fst xrp k \<and> r = (fst ((cg_sweep A ^^ k) xrp), cnt + k)"
    and eq: "(let y = fst xrp; xrp = cg_sweep A xrp; cnt = cnt + 1
          in if norm2 (vsub (fst xrp) y) \<le> eps then Some (fst xrp, cnt) else loop A xrp cnt) = Some r"
  show "\<exists>k. runs_sweeps (cg_sweep A) fst xrp k \<and> r = (fst ((cg_sweep A ^^ k) xrp), cnt + k)"
  proof (rule do_while_step [where loop = "loop A" and proj = fst])
    show "(if stop_test (fst xrp) (fst (cg_sweep A xrp)) then Some (fst (cg_sweep A xrp), cnt + 1)
           else loop A (cg_sweep A xrp) (cnt + 1)) = Some r"
      using eq by (auto simp: stop_test_def Let_def split: if_splits)
  qed (rule IH)
qed


lemmas sor_loop_induct =
  sor_loop.raw_induct [where xa = "(((((A, b), w), n), x), cnt)" for A b w n x cnt, unfolded prod.case]

lemma sor_loop_count:
  assumes "sor_loop A b w n x cnt = Some r"
  shows "\<exists>k. runs_sweeps (sor_sweep A b w n) (\<lambda>x. x) x k
       \<and> r = ((sor_sweep A b w n ^^ k) x, cnt + k)"
proof (rule sor_loop_induct
    [where P = "\<lambda>A b w n x cnt r. \<exists>k. runs_sweeps (sor_sweep A b w n) (\<lambda>x. x) x k
       \<and> r = ((sor_sweep A b w n ^^ k) x, cnt + k)", OF _ assms])
  fix loop A b w n x cnt r
  assume IH: "\<And>A b w n x cnt r. loop A b w n x cnt = Some r \<Longrightarrow>
      \<exists>k. runs_sweeps (sor_sweep A b w n) (\<lambda>x. x) x k
       \<and> r = ((sor_sweep A b w n ^^ k) x, cnt + k)"
    and eq: "(let y = x; x = sor_sweep A b w n x; cnt = cnt + 1
          in if norm2 (vsub x y) \<le> eps then Some (x, cnt) else loop A b w n x cnt) = Some r"
  show "\<exists>k. runs_sweeps (sor_sweep A b w n) (\<lambda>x. x) x k
       \<and> r = ((sor_sweep A b w n ^^ k) x, cnt + k)"
  proof (rule do_while_step [where loop = "loop A b w n" and proj = "\<lambda>x. x"])
    show "(if stop_test x (sor_sweep A b w n x) then Some (sor_sweep A b w n x, cnt + 1)
           else loop A b w n (sor_sweep A b w n x) (cnt + 1)) = Some r"
      using eq by (auto simp: stop_test_def Let_def split: if_splits)
  qed (rule IH)
qed

lemma after_check_Solved:
  "after_check v run = Some (Inr (Solved x cnt, out)) \<Longrightarrow> run = Some (x, cnt)"
  by (auto simp: after_check_def split: sum.splits prod.splits if_splits)

lemma runs_sweeps_pos: "runs_sweeps step proj s k \<Longrightarrow> 1 \<le> k"
  by (simp add: runs_sweeps_def)

text \<open>
  C10. A call of \<open>conjugate_gradient\<close> that returns \<open>(x, cnt)\<close> has run its loop body some
  \<open>k \<ge> 1\<close> times, \<open>x\<close> is the iterate after these \<open>k\<close> sweeps and \<open>cnt = k + 1 \<ge> 2\<close>, its counter
  starting at 1; for \<open>jacobi\<close>, \<open>gauss_seidel\<close> and \<open>successive_over_relaxation\<close>, whose counters
  start at 0, \<open>cnt = k\<close>.
\<close>

theorem iteration_counts:
  "(conjugate_gradient eigvals A b x0 = Some (Inr (Solved x cnt, out)) \<longrightarrow>
      (\<exists>k. runs_sweeps (cg_sweep A) fst (x0, vsub b (mat_vec A x0), vsub b (mat_vec A x0)) k
         \<and> x = fst ((cg_sweep A ^^ k) (x0, vsub b (mat_vec A x0), vsub b (mat_vec A x0)))
         \<and> cnt = k + 1 \<and> 2 \<le> cnt))
   \<and> (jacobi linv eigvals A b x0 = Some (Inr (Solved x cnt, out)) \<longrightarrow>
      (\<exists>k. runs_sweeps (\<lambda>x. jacobi_sweep A b (length A) x x) (\<lambda>x. x) x0 k
         \<and> x = ((\<lambda>x. jacobi_sweep A b (length A) x x) ^^ k) x0 \<and> cnt = k))
   \<and> (gauss_seidel linv eigvals A b x0 = Some (Inr (Solved x cnt, out)) \<longrightarrow>
      (\<exists>k. runs_sweeps (gauss_seidel_sweep A b (length A)) (\<lambda>x. x) x0 k
         \<and> x = (gauss_seidel_sweep A b (length A) ^^ k) x0 \<and> cnt = k))
   \<and> (successive_over_relaxation linv eigvals A b w x0 = Some (Inr (Solved x cnt, out)) \<longrightarrow>
      (\<exists>k. runs_sweeps (sor_sweep A b w (length A)) (\<lambda>x. x) x0 k
         \<and> x = (sor_sweep A b w (length A) ^^ k) x0 \<and> cnt = k))"
proof (intro conjI impI)
  assume "conjugate_gradient eigvals A b x0 = Some (Inr (Solved x cnt, out))"
  then have "cg_loop A (x0, vsub b (mat_vec A x0), vsub b (mat_vec A x0)) 1 = Some (x, cnt)"
    unfolding conjugate_gradient_def by (auto dest: after_check_Solved simp: Let_def)
  from cg_loop_count[OF this] obtain k where
    k: "runs_sweeps (cg_sweep A) fst (x0, vsub b (mat_vec A x0), vsub b (mat_vec A x0)) k"
       "(x, cnt) = (fst ((cg_sweep A ^^ k) (x0, vsub b (mat_vec A x0), vsub b (mat_vec A x0))), 1 + k)"
    by blast
  have "1 \<le> k" using k(1) by (rule runs_sweeps_pos)
  then show "\<exists>k. runs_sweeps (cg_sweep A) fst (x0, vsub b (mat_vec A x0), vsub b (mat_vec A x0)) k
         \<and> x = fst ((cg_sweep A ^^ k) (x0, vsub b (mat_vec A x0), vsub b (mat_vec A x0)))
         \<and> cnt = k + 1 \<and> 2 \<le> cnt"
    using k by (intro exI[of _ k]) simp
next
  assume "jacobi linv eigvals A b x0 = Some (Inr (Solved x cnt, out))"
  then have "jacobi_loop A b (length A) x0 0 = Some (x, cnt)"
    unfolding jacobi_def by (rule after_check_Solved)
  from jacobi_loop_count[OF this]
  show "\<exists>k. runs_sweeps (\<lambda>x. jacobi_sweep A b (length A) x x) (\<lambda>x. x) x0 k
         \<and> x = ((\<lambda>x. jacobi_sweep A b (length A) x x) ^^ k) x0 \<and> cnt = k"
    by auto
next
  assume "gauss_seidel linv eigvals A b x0 = Some (Inr (Solved x cnt, out))"
  then have "gauss_seidel_loop A b (length A) x0 0 = Some (x, cnt)"
    unfolding gauss_seidel_def by (rule after_check_Solved)
  from gauss_seidel_loop_count[OF this]
  show "\<exists>k. runs_sweeps (gauss_seidel_sweep A b (length A)) (\<lambda>x. x) x0 k
         \<and> x = (gauss_seidel_sweep A b (length A) ^^ k) x0 \<and> cnt = k"
    by auto
next
  assume "successive_over_relaxation linv eigvals A b w x0 = Some (Inr (Solved x cnt, out))"
  then have "sor_loop A b w (length A) x0 0 = Some (x, cnt)"
    unfolding successive_over_relaxation_def by (rule after_check_Solved)
  from sor_loop_count[OF this]
  show "\<exists>k. runs_sweeps (sor_sweep A b w (length A)) (\<lambda>x. x) x0 k
         \<and> x = (sor_sweep A b w (length A) ^^ k) x0 \<and> cnt = k"
    by auto
qed

lemma fsqrt_le_eps:
  "fsqrt x \<le> eps \<longleftrightarrow> (case x of Fin a \<Rightarrow> 0 \<le> a \<and> a \<le> 1 / 10 ^ 12 | _ \<Rightarrow> False)"
proof (cases x)
  case (Fin a)
  have "sqrt a \<le> 1 / 10 ^ 6 \<longleftrightarrow> a \<le> 1 / 10 ^ 12" if "0 \<le> a"
  proof
    assume "sqrt a \<le> 1 / 10 ^ 6"
    then have "a \<le> (1 / 10 ^ 6)\<^sup>2" by (rule sqrt_le_D)
    then show "a \<le> 1 / 10 ^ 12" by (simp add: power2_eq_square)
  next
    assume "a \<le> 1 / 10 ^ 12"
    then have "a \<le> (1 / 10 ^ 6)\<^sup>2" by (simp add: power2_eq_square)
    then show "sqrt a \<le> 1 / 10 ^ 6" by (intro real_le_lsqrt) simp_all
  qed
  then show ?thesis using Fin
    by (auto simp: eps_def less_eq_flt_def feq_def)
qed (simp_all add: eps_def less_eq_flt_def feq_def)

lemma norm2_le_eps:
  "norm2 v \<le> eps \<longleftrightarrow> (case dot v v of Fin a \<Rightarrow> 0 \<le> a \<and> a \<le> 1 / 10 ^ 12 | _ \<Rightarrow> False)"
  by (simp add: norm2_def fsqrt_le_eps)


lemmas check_eval =
  check_jacobi_convergency_def check_gauss_seidel_convergency_def
  check_successive_over_relaxation_convergency_def check_spectral_radius_def norm_inf_def eps_def
  check_symmetric_and_positive_definite_matrix_def all_equal_def mat_T_def np_less_zero_def
  after_check_def

lemmas sweep_eval =
  jacobi_sweep_def gauss_seidel_sweep_def sor_sweep_def cg_sweep_def off_diag_sum_def
  norm2_le_eps

lemma jacobi_run1:
  "jacobi linv1 eigvals1 [[Fin 1]] [Fin 1] [Fin 0] = Some (Inr (Solved [Fin 1] 2, []))"
  apply (simp add: jacobi_def check_eval linv1_def eigvals1_def mat_eval)
  apply (subst jacobi_loop.simps)
  apply (simp add: sweep_eval arr_eval Let_def)
  apply (subst jacobi_loop.simps)
  apply (simp add: sweep_eval arr_eval Let_def)
  done

lemma gauss_seidel_run1:
  "gauss_seidel linv1 eigvals1 [[Fin 1]] [Fin 1] [Fin 0] = Some (Inr (Solved [Fin 1] 2, []))"
  apply (simp add: gauss_seidel_def check_eval linv1_def eigvals1_def mat_eval)
  apply (subst gauss_seidel_loop.simps)
  apply (simp add: sweep_eval arr_eval Let_def)
  apply (subst gauss_seidel_loop.simps)
  apply (simp add: sweep_eval arr_eval Let_def)
  done

lemma sor_run1:
  "successive_over_relaxation linv1 eigvals1 [[Fin 1]] [Fin 1] (Fin (3 / 2)) [Fin 1]
     = Some (Inr (Solved [Fin 1] 1, []))"
  apply (simp add: successive_over_relaxation_def check_eval linv1_def eigvals1_def mat_eval)
  apply (subst sor_loop.simps)
  apply (simp add: sweep_eval arr_eval Let_def)
  done

lemma cg_run1:
  "conjugate_gradient eigvals1 [[Fin 1]] [Fin 1] [Fin (1 - 1 / 10 ^ 7)]
     = Some (Inr (Solved [Fin 1] 2, []))"
  apply (simp add: conjugate_gradient_def check_eval linv1_def eigvals1_def mat_eval)
  apply (subst cg_loop.simps)
  apply (simp add: sweep_eval arr_eval Let_def)
  done

theorem iteration_counts_witness:
  "(\<exists>k. runs_sweeps (cg_sweep [[Fin 1]]) fst ([Fin (1 - 1 / 10 ^ 7)], [Fin (1 / 10 ^ 7)], [Fin (1 / 10 ^ 7)]) k
        \<and> (2::nat) = k + 1)
   \<and> (\<exists>k. runs_sweeps (\<lambda>x. jacobi_sweep [[Fin 1]] [Fin 1] 1 x x) (\<lambda>x. x) [Fin 0] k \<and> (2::nat) = k)
   \<and> (\<exists>k. runs_sweeps (gauss_seidel_sweep [[Fin 1]] [Fin 1] 1) (\<lambda>x. x) [Fin 0] k \<and> (2::nat) = k)
   \<and> (\<exists>k. runs_sweeps (sor_sweep [[Fin 1]] [Fin 1] (Fin (3 / 2)) 1) (\<lambda>x. x) [Fin 1] k \<and> (1::nat) = k)"
  using iteration_counts [of eigvals1 "[[Fin 1]]" "[Fin 1]" "[Fin (1 - 1 / 10 ^ 7)]" "[Fin 1]" 2 "[]"]
    iteration_counts [of eigvals1 "[[Fin 1]]" "[Fin 1]" "[Fin 0]" "[Fin 1]" 2 "[]" linv1]
    iteration_counts [of eigvals1 "[[Fin 1]]" "[Fin 1]" "[Fin 1]" "[Fin 1]" 1 "[]" linv1 "Fin (3 / 2)"]
    cg_run1 jacobi_run1 gauss_seidel_run1 sor_run1
  by (simp add: mat_eval)


text \<open>
  C4. For a square \<open>A\<close>, \<open>conjugate_gradient\<close> enters its loop exactly when \<open>A\<close> equals its
  transpose entry by entry and no eigenvalue is negative (the eigenvalues of a symmetric
  matrix are real); otherwise it returns the sentinel pair with the diagnostic line, and
  no sweep is run. A matrix that is not symmetric is rejected before any eigenvalue is
  computed.
\<close>

theorem conjugate_gradient_preflight:
  fixes A :: mat and b x0 :: vec
  assumes "square n A"
  defines "r0 \<equiv> vsub b (mat_vec A x0)"
  defines "msg \<equiv> ''A must be symmetric and positive definite matrix''"
  shows "(\<not> symmetric_np n A \<longrightarrow> conjugate_gradient eigvals A b x0 = Some (Inr (Sentinel, [msg])))
    \<and> (eigvals A = Inr ev \<and> (\<forall>z\<in>set ev. Im z = 0) \<longrightarrow>
         (symmetric_np n A \<and> (\<forall>z\<in>set ev. 0 \<le> Re z) \<longrightarrow>
            conjugate_gradient eigvals A b x0
              = map_option (\<lambda>(x, cnt). Inr (Solved x cnt, [])) (cg_loop A (x0, r0, r0) 1))
       \<and> (\<not> (symmetric_np n A \<and> (\<forall>z\<in>set ev. 0 \<le> Re z)) \<longrightarrow>
            conjugate_gradient eigvals A b x0 = Some (Inr (Sentinel, [msg])))
       \<and> ((\<exists>out. conjugate_gradient eigvals A b x0 = Some (Inr (Sentinel, out)))
            \<longleftrightarrow> \<not> (symmetric_np n A \<and> (\<forall>z\<in>set ev. 0 \<le> Re z))))"
proof -
  have sym: "all_equal (mat_T A) A = symmetric_np n A"
    using assms(1) by (rule all_equal_T)
  have nosym: "conjugate_gradient eigvals A b x0 = Some (Inr (Sentinel, [msg]))"
    if "\<not> symmetric_np n A"
    using that
    by (simp add: conjugate_gradient_def check_symmetric_and_positive_definite_matrix_def sym
        after_check_def msg_def)
  have neg: "list_ex np_less_zero ev \<longleftrightarrow> \<not> (\<forall>z\<in>set ev. 0 \<le> Re z)" if "\<forall>z\<in>set ev. Im z = 0"
    using that by (auto simp: list_ex_iff np_less_zero_def not_le)
  have pass: "conjugate_gradient eigvals A b x0
              = map_option (\<lambda>(x, cnt). Inr (Solved x cnt, [])) (cg_loop A (x0, r0, r0) 1)"
    if "eigvals A = Inr ev" "\<forall>z\<in>set ev. Im z = 0" "symmetric_np n A" "\<forall>z\<in>set ev. 0 \<le> Re z"
    using that neg
    by (simp add: conjugate_gradient_def check_symmetric_and_positive_definite_matrix_def sym
        after_check_def r0_def Let_def)
  have fail: "conjugate_gradient eigvals A b x0 = Some (Inr (Sentinel, [msg]))"
    if "eigvals A = Inr ev" "\<forall>z\<in>set ev. Im z = 0" "symmetric_np n A" "\<not> (\<forall>z\<in>set ev. 0 \<le> Re z)"
    using that neg
    by (simp add: conjugate_gradient_def check_symmetric_and_positive_definite_matrix_def sym
        after_check_def msg_def)
  have nosent: "map_option (\<lambda>(x, cnt). Inr (Solved x cnt, [])) run \<noteq> Some (Inr (Sentinel, out))"
    for run :: "(vec \<times> nat) option" and out :: "string list"
    by (cases run) auto
  show ?thesis
  proof (intro conjI impI)
    assume "\<not> symmetric_np n A"
    then show "conjugate_gradient eigvals A b x0 = Some (Inr (Sentinel, [msg]))" by (rule nosym)
  next
    assume h: "eigvals A = Inr ev \<and> (\<forall>z\<in>set ev. Im z = 0)"
      and p: "symmetric_np n A \<and> (\<forall>z\<in>set ev. 0 \<le> Re z)"
    show "conjugate_gradient eigvals A b x0
          = map_option (\<lambda>(x, cnt). Inr (Solved x cnt, [])) (cg_loop A (x0, r0, r0) 1)"
      using h p pass by blast
  next
    assume h: "eigvals A = Inr ev \<and> (\<forall>z\<in>set ev. Im z = 0)"
      and p: "\<not> (symmetric_np n A \<and> (\<forall>z\<in>set ev. 0 \<le> Re z))"
    show "conjugate_gradient eigvals A b x0 = Some (Inr (Sentinel, [msg]))"
      using h p nosym fail by blast
  next
    assume h: "eigvals A = Inr ev \<and> (\<forall>z\<in>set ev. Im z = 0)"
    show "(\<exists>out. conjugate_gradient eigvals A b x0 = Some (Inr (Sentinel, out)))
            \<longleftrightarrow> \<not> (symmetric_np n A \<and> (\<forall>z\<in>set ev. 0 \<le> Re z))"
    proof (cases "symmetric_np n A \<and> (\<forall>z\<in>set ev. 0 \<le> Re z)")
      case True
      then have "conjugate_gradient eigvals A b x0
          = map_option (\<lambda>(x, cnt). Inr (Solved x cnt, [])) (cg_loop A (x0, r0, r0) 1)"
        using h pass by blast
      then show ?thesis using True nosent by simp
    next
      case False
      then have "conjugate_gradient eigvals A b x0 = Some (Inr (Sentinel, [msg]))"
        using h nosym fail by blast
      then show ?thesis using False by simp
    qed
  qed
qed


lemma flt_add_assoc: "(x + y) + z = x + (y + z)" for x y z :: flt
  by (cases x; cases y; cases z) (simp_all add: plus_flt_def)

lemma flt_add_0 [simp]: "0 + x = x" "x + 0 = x" for x :: flt
  by (cases x; simp add: plus_flt_def zero_flt_def)+

lemma flt_neg_add: "- (x + y) = - x + - y" for x y :: flt
  by (cases x; cases y) (simp_all add: plus_flt_def uminus_flt_def)

lemma flt_diff_conv: "x - y = x + - y" for x y :: flt
  by (simp add: minus_flt_def plus_flt_def uminus_flt_def)

lemma flt_diff_add: "b - (s + t) = b - s - t" for b s t :: flt
  by (simp add: flt_diff_conv flt_neg_add flt_add_assoc)

lemma foldl_flt_add: "foldl (+) a xs = a + fsum xs" for a :: flt
proof (induction xs arbitrary: a)
  case Nil
  then show ?case by (simp add: fsum_def)
next
  case (Cons x xs)
  have "foldl (+) a (x # xs) = (a + x) + fsum xs" using Cons[of "a + x"] by simp
  also have "\<dots> = a + (x + fsum xs)" by (rule flt_add_assoc)
  also have "x + fsum xs = fsum (x # xs)" using Cons[of "0 + x"] by (simp add: fsum_def)
  finally show ?case .
qed

lemma fsum_append: "fsum (xs @ ys) = fsum xs + fsum ys"
  using foldl_flt_add[of "foldl (+) 0 xs" ys] by (simp add: fsum_def)

lemma fold_cond_sum:
  "fold (\<lambda>j s. if P j then s + f j else s) js a = foldl (+) a (map f (filter P js))" for a :: flt
  by (induction js arbitrary: a) simp_all

lemma off_diag_sum_fsum:
  "off_diag_sum A n i x = fsum (map (\<lambda>j. A ! i ! j * x ! j) (filter (\<lambda>j. j \<noteq> i) [0..<n]))"
  by (simp add: off_diag_sum_def fold_cond_sum fsum_def)

lemma filter_neq_upt: "i < n \<Longrightarrow> filter (\<lambda>j. j \<noteq> i) [0..<n] = [0..<i] @ [Suc i..<n]"
proof -
  assume "i < n"
  then have "[0..<n] = [0..<i] @ i # [Suc i..<n]"
    by (metis le_add2 less_imp_add_positive upt_add_eq_append upt_conv_Cons plus_nat.add_0 zero_le Suc_leI less_or_eq_imp_le upt_rec)
  then show ?thesis by (auto simp: filter_id_conv)
qed

lemma fold_update_indep:
  "n \<le> length x \<Longrightarrow> fold (\<lambda>i x. x[i := f i]) [0..<n] x = map f [0..<n] @ drop n x"
proof (induction n)
  case 0
  then show ?case by simp
next
  case (Suc n)
  then have "fold (\<lambda>i x. x[i := f i]) [0..<Suc n] x = (map f [0..<n] @ drop n x)[n := f n]"
    by simp
  also have "\<dots> = map f [0..<n] @ (drop n x)[0 := f n]"
    by (simp add: list_update_append)
  also have "(drop n x)[0 := f n] = f n # drop (Suc n) x"
    using Suc.prems by (cases "drop n x") (auto simp: drop_Suc[symmetric] dest: arg_cong[where f=tl] simp: tl_drop)
  finally show ?case by simp
qed



theorem conjugate_gradient_preflight_witness:
  "conjugate_gradient eigvals_sym [[Fin 2, Fin 1], [Fin 1, Fin 2]] [Fin 1, Fin 1] [Fin 0, Fin 0]
     = map_option (\<lambda>(x, cnt). Inr (Solved x cnt, []))
         (cg_loop [[Fin 2, Fin 1], [Fin 1, Fin 2]] ([Fin 0, Fin 0], [Fin 1, Fin 1], [Fin 1, Fin 1]) 1)
   \<and> conjugate_gradient eigvals_sym [[Fin 1, Fin 2], [Fin 3, Fin 1]] [Fin 1, Fin 1] [Fin 0, Fin 0]
     = Some (Inr (Sentinel, [''A must be symmetric and positive definite matrix'']))"
  using conjugate_gradient_preflight
      [of 2 "[[Fin 2, Fin 1], [Fin 1, Fin 2]]" eigvals_sym "[Fin 1, Fin 1]" "[Fin 0, Fin 0]" "[3, 1]"]
    conjugate_gradient_preflight
      [of 2 "[[Fin 1, Fin 2], [Fin 3, Fin 1]]" eigvals_sym "[Fin 1, Fin 1]" "[Fin 0, Fin 0]" "[]"]
  by (auto simp: square_def symmetric_np_def eigvals_sym_def arr_eval flt_cmp
      less_Suc_eq numeral_2_eq_2)


lemma fold_update_seq:
  fixes F :: "nat \<Rightarrow> 'a list \<Rightarrow> 'a"
  defines "X \<equiv> \<lambda>n x. fold (\<lambda>i x. x[i := F i x]) [0..<n] x"
  assumes "n \<le> length x"
  shows "length (X n x) = length x \<and> drop n (X n x) = drop n x
         \<and> (\<forall>i<n. X n x ! i = F i (take i (X n x) @ drop i x))"
  using assms(2)
proof (induction n)
  case 0
  then show ?case by (simp add: X_def)
next
  case (Suc n)
  then have IH: "length (X n x) = length x" "drop n (X n x) = drop n x"
    "\<forall>i<n. X n x ! i = F i (take i (X n x) @ drop i x)" by simp_all
  have step: "X (Suc n) x = (X n x)[n := F n (X n x)]" by (simp add: X_def)
  have n: "n < length (X n x)" using Suc.prems IH(1) by simp
  have tk: "take i (X (Suc n) x) = take i (X n x)" if "i \<le> n" for i
    using that by (simp add: step)
  have a: "length (X (Suc n) x) = length x" using IH(1) by (simp add: step)
  have b: "drop (Suc n) (X (Suc n) x) = drop (Suc n) x"
  proof -
    have "drop (Suc n) (X (Suc n) x) = drop (Suc n) (X n x)" by (simp add: step)
    also have "\<dots> = drop 1 (drop n (X n x))" by simp
    also have "\<dots> = drop (Suc n) x" by (simp add: IH(2))
    finally show ?thesis .
  qed
  have c: "X (Suc n) x ! i = F i (take i (X (Suc n) x) @ drop i x)" if "i < Suc n" for i
  proof (cases "i = n")
    case True
    have "X n x = take n (X n x) @ drop n (X n x)" by simp
    then have "X n x = take n (X (Suc n) x) @ drop n x" by (simp add: IH(2) tk)
    then show ?thesis using True n by (simp add: step)
  next
    case False
    then have "i < n" using that by simp
    then show ?thesis using IH(3) n by (simp add: step tk)
  qed
  show ?case using a b c by blast
qed

text \<open>
  C5. In a sweep of \<open>jacobi\<close> (the loop passes it the iterate \<open>x\<close> and its copy \<open>y = x\<close>)
  every component \<open>i < n\<close> becomes \<open>(b[i] - \<Sum>\<^bsub>j \<noteq> i\<^esub> A[i,j] * x[j]) / A[i,i]\<close> with the
  components of the iterate before the sweep: the new vector is this map of the old one.
\<close>

theorem jacobi_sweep_simultaneous:
  assumes "n \<le> length x"
  shows "jacobi_sweep A b n x x
           = map (\<lambda>i. (b ! i - fsum (map (\<lambda>j. A ! i ! j * x ! j) (filter (\<lambda>j. j \<noteq> i) [0..<n])))
                        / A ! i ! i) [0..<n]
             @ drop n x
         \<and> (\<forall>i<n. jacobi_sweep A b n x x ! i
              = (b ! i - fsum (map (\<lambda>j. A ! i ! j * x ! j) (filter (\<lambda>j. j \<noteq> i) [0..<n])))
                  / A ! i ! i)"
proof -
  let ?f = "\<lambda>i. (b ! i - fsum (map (\<lambda>j. A ! i ! j * x ! j) (filter (\<lambda>j. j \<noteq> i) [0..<n]))) / A ! i ! i"
  have eq: "jacobi_sweep A b n x x = map ?f [0..<n] @ drop n x"
    unfolding jacobi_sweep_def off_diag_sum_fsum using assms by (rule fold_update_indep)
  have "(map ?f [0..<n] @ drop n x) ! i = ?f i" if "i < n" for i
    using that by (simp add: nth_append)
  then show ?thesis using eq by simp
qed

theorem jacobi_sweep_simultaneous_witness:
  "jacobi_sweep [[Fin 2, Fin 1], [Fin 1, Fin 2]] [Fin 3, Fin 3] 2 [Fin 0, Fin 1] [Fin 0, Fin 1]
     = [Fin 1, Fin (3 / 2)]"
  using jacobi_sweep_simultaneous
    [of 2 "[Fin 0, Fin 1]" "[[Fin 2, Fin 1], [Fin 1, Fin 2]]" "[Fin 3, Fin 3]"]
  by (simp add: fsum_def flt_ops upt_rec)

text \<open>
  C6. In a sweep of \<open>gauss_seidel\<close> every component \<open>i < n\<close> becomes
  \<open>(b[i] - \<Sum>\<^bsub>j < i\<^esub> A[i,j] * new[j] - \<Sum>\<^bsub>j > i\<^esub> A[i,j] * old[j]) / A[i,i]\<close>: the components
  before \<open>i\<close> are those this sweep has already written, the components after \<open>i\<close> are
  those of the iterate before the sweep.
\<close>

theorem gauss_seidel_sweep_sequential:
  fixes A :: mat and b x :: vec
  assumes "n \<le> length x" and "i < n"
  defines "new \<equiv> gauss_seidel_sweep A b n x"
  shows "new ! i = (b ! i - fsum (map (\<lambda>j. A ! i ! j * new ! j) [0..<i])
                          - fsum (map (\<lambda>j. A ! i ! j * x ! j) [Suc i..<n])) / A ! i ! i"
proof -
  let ?F = "\<lambda>i x. (b ! i - off_diag_sum A n i x) / A ! i ! i"
  have seq: "length new = length x" "new ! i = ?F i (take i new @ drop i x)"
    using fold_update_seq[of n x ?F] assms(1,2)
    by (simp_all add: new_def gauss_seidel_sweep_def)
  let ?m = "take i new @ drop i x"
  have il: "i \<le> length new" using assms(1,2) seq(1) by simp
  have lt: "?m ! j = new ! j" if "j < i" for j
    using that il by (simp add: nth_append)
  have gt: "?m ! j = x ! j" if "i < j" "j < n" for j
    using that il assms(1) by (simp add: nth_append min_def)
  have "off_diag_sum A n i ?m
        = fsum (map (\<lambda>j. A ! i ! j * ?m ! j) [0..<i] @ map (\<lambda>j. A ! i ! j * ?m ! j) [Suc i..<n])"
    using assms(2) by (simp add: off_diag_sum_fsum filter_neq_upt)
  also have "map (\<lambda>j. A ! i ! j * ?m ! j) [0..<i] = map (\<lambda>j. A ! i ! j * new ! j) [0..<i]"
    using lt by (intro map_cong) auto
  also have "map (\<lambda>j. A ! i ! j * ?m ! j) [Suc i..<n] = map (\<lambda>j. A ! i ! j * x ! j) [Suc i..<n]"
    using gt by (intro map_cong) auto
  finally have "off_diag_sum A n i ?m
        = fsum (map (\<lambda>j. A ! i ! j * new ! j) [0..<i]) + fsum (map (\<lambda>j. A ! i ! j * x ! j) [Suc i..<n])"
    by (simp add: fsum_append)
  then show ?thesis using seq(2) by (simp add: flt_diff_add)
qed

theorem gauss_seidel_sweep_sequential_witness:
  "gauss_seidel_sweep [[Fin 2, Fin 1], [Fin 1, Fin 2]] [Fin 3, Fin 3] 2 [Fin 0, Fin 1] ! 1
     = Fin 1"
  using gauss_seidel_sweep_sequential
    [of 2 "[Fin 0, Fin 1]" 1 "[[Fin 2, Fin 1], [Fin 1, Fin 2]]" "[Fin 3, Fin 3]"]
  by (simp add: gauss_seidel_sweep_def off_diag_sum_def fsum_def flt_ops upt_rec)


lemma fold_concat_lists: "fold f (concat xss) s = fold (fold f) xss s"
  by (induction xss arbitrary: s) simp_all

lemma forward_elimination_pairs:
  "forward_elimination n Ab = fold (\<lambda>(i, j). gauss_body n i j) (pivot_pairs n) Ab"
proof -
  have "fold (\<lambda>(i, j). gauss_body n i j) (map (Pair i) js) = fold (gauss_body n i) js" for i js
    by (simp add: fold_map comp_def)
  then show ?thesis
    by (simp add: forward_elimination_def pivot_pairs_def fold_concat_lists fold_map comp_def)
qed

lemma pivot_pairs_set: "(i, j) \<in> set (pivot_pairs n) \<longleftrightarrow> i < j \<and> j < n"
proof
  assume "(i, j) \<in> set (pivot_pairs n)"
  then show "i < j \<and> j < n" by (auto simp: pivot_pairs_def)
next
  assume "i < j \<and> j < n"
  then have "i \<in> {0..<n - Suc 0}" "(i, j) \<in> Pair i ` {Suc i..<n}" by auto
  then show "(i, j) \<in> set (pivot_pairs n)" by (auto simp: pivot_pairs_def)
qed

text \<open>
  C7. The loops of \<open>pivot_gauss\<close> run their body once for every pair \<open>i < j < n\<close>, and the
  body first exchanges rows \<open>i\<close> and \<open>j\<close> of the working copies of \<open>A\<close> and \<open>b\<close> exactly
  when \<open>A[j,i] > A[i,i]\<close> holds for the values themselves, then eliminates. The test is not
  the comparison of magnitudes: with \<open>A[i,i] = 1\<close> and \<open>A[j,i] = -5\<close> nothing is exchanged.
\<close>

theorem gauss_swap_raw_comparison:
  assumes "i < j" and "j < length A" and "j < length b"
  defines "A' \<equiv> fst (gauss_swap i j (A, b))" and "b' \<equiv> snd (gauss_swap i j (A, b))"
  shows "forward_elimination n Ab
           = fold (\<lambda>(i, j). gauss_eliminate n i j \<circ> gauss_swap i j) (pivot_pairs n) Ab
    \<and> (\<forall>p\<in>set (pivot_pairs n). fst p < snd p \<and> snd p < n)
    \<and> (A ! j ! i > A ! i ! i \<longrightarrow>
          A' ! i = A ! j \<and> A' ! j = A ! i \<and> b' ! i = b ! j \<and> b' ! j = b ! i
          \<and> (\<forall>k. k \<noteq> i \<and> k \<noteq> j \<longrightarrow> A' ! k = A ! k \<and> b' ! k = b ! k))
    \<and> (\<not> A ! j ! i > A ! i ! i \<longrightarrow> A' = A \<and> b' = b)
    \<and> (fabs (Fin (- 5)) > fabs (Fin 1)
        \<and> gauss_swap 0 1 ([[Fin 1, Fin 0], [Fin (- 5), Fin 1]], [Fin 1, Fin 1])
            = ([[Fin 1, Fin 0], [Fin (- 5), Fin 1]], [Fin 1, Fin 1]))"
proof -
  have loops: "forward_elimination n Ab
           = fold (\<lambda>(i, j). gauss_eliminate n i j \<circ> gauss_swap i j) (pivot_pairs n) Ab"
  proof -
    have "(\<lambda>(i, j). gauss_body n i j) = (\<lambda>(i, j). gauss_eliminate n i j \<circ> gauss_swap i j)"
      by (auto simp: fun_eq_iff gauss_body_def)
    then show ?thesis by (simp add: forward_elimination_pairs)
  qed
  have pairs: "\<forall>p\<in>set (pivot_pairs n). fst p < snd p \<and> snd p < n"
    using pivot_pairs_set by auto
  have yes: "A' ! i = A ! j \<and> A' ! j = A ! i \<and> b' ! i = b ! j \<and> b' ! j = b ! i
          \<and> (\<forall>k. k \<noteq> i \<and> k \<noteq> j \<longrightarrow> A' ! k = A ! k \<and> b' ! k = b ! k)"
    if "A ! j ! i > A ! i ! i"
    using that assms(1-3) by (simp add: A'_def b'_def gauss_swap_def)
  have no: "A' = A \<and> b' = b" if "\<not> A ! j ! i > A ! i ! i"
    using that by (simp add: A'_def b'_def gauss_swap_def)
  have ex: "fabs (Fin (- 5)) > fabs (Fin 1)
        \<and> gauss_swap 0 1 ([[Fin 1, Fin 0], [Fin (- 5), Fin 1]], [Fin 1, Fin 1])
            = ([[Fin 1, Fin 0], [Fin (- 5), Fin 1]], [Fin 1, Fin 1])"
    by (simp add: gauss_swap_def less_flt_def)
  show ?thesis using loops pairs yes no ex by blast
qed

theorem gauss_swap_raw_comparison_witness:
  "gauss_swap 0 1 ([[Fin 1, Fin 2], [Fin 3, Fin 4]], [Fin 5, Fin 6])
     = ([[Fin 3, Fin 4], [Fin 1, Fin 2]], [Fin 6, Fin 5])
   \<and> gauss_swap 0 1 ([[Fin 3, Fin 4], [Fin 1, Fin 2]], [Fin 6, Fin 5])
     = ([[Fin 3, Fin 4], [Fin 1, Fin 2]], [Fin 6, Fin 5])
   \<and> forward_elimination 2 ([[Fin 1, Fin 2], [Fin 3, Fin 4]], [Fin 5, Fin 6])
     = ([[Fin 3, Fin 4], [Fin 0, Fin (2 / 3)]], [Fin 6, Fin 3])"
proof -
  have a: "fst (gauss_swap 0 1 ([[Fin 1, Fin 2], [Fin 3, Fin 4]], [Fin 5, Fin 6])) ! 0 = [Fin 3, Fin 4]"
    using gauss_swap_raw_comparison
      [of 0 1 "[[Fin 1, Fin 2], [Fin 3, Fin 4]]" "[Fin 5, Fin 6]" 2
          "([[Fin 1, Fin 2], [Fin 3, Fin 4]], [Fin 5, Fin 6])"]
    by (simp add: less_flt_def)
  have b: "fst (gauss_swap 0 1 ([[Fin 3, Fin 4], [Fin 1, Fin 2]], [Fin 6, Fin 5]))
             = [[Fin 3, Fin 4], [Fin 1, Fin 2]]"
    using gauss_swap_raw_comparison
      [of 0 1 "[[Fin 3, Fin 4], [Fin 1, Fin 2]]" "[Fin 6, Fin 5]" 2
          "([[Fin 1, Fin 2], [Fin 3, Fin 4]], [Fin 5, Fin 6])"]
    by (simp add: less_flt_def)
  have c: "forward_elimination 2 ([[Fin 1, Fin 2], [Fin 3, Fin 4]], [Fin 5, Fin 6])
     = ([[Fin 3, Fin 4], [Fin 0, Fin (2 / 3)]], [Fin 6, Fin 3])"
    using gauss_swap_raw_comparison
      [of 0 1 "[[Fin 1, Fin 2], [Fin 3, Fin 4]]" "[Fin 5, Fin 6]" 2
          "([[Fin 1, Fin 2], [Fin 3, Fin 4]], [Fin 5, Fin 6])"]
    by (simp add: pivot_pairs_def gauss_swap_def gauss_eliminate_def flt_ops flt_cmp upt_rec Let_def)
  show ?thesis using a b c
    by (simp add: gauss_swap_def less_flt_def)
qed


lemma div_zero_not_finite: "\<not> finite_flt (x / 0)" for x :: flt
  by (cases x) (simp_all add: divide_flt_def zero_flt_def inf_sgn_def)

lemma fold_rev_update_keeps:
  "n \<le> k \<Longrightarrow> fold (\<lambda>i x. x[i := G i x]) (rev [0..<n]) x ! k = x ! k"
  by (induction n arbitrary: x) simp_all

lemma fold_rev_update_length:
  "length (fold (\<lambda>i x. x[i := G i x]) (rev [0..<n]) x) = length x"
  by (induction n arbitrary: x) simp_all

lemma fold_rev_update_quotient:
  fixes N :: "nat \<Rightarrow> vec \<Rightarrow> flt" and d :: "nat \<Rightarrow> flt"
  assumes "k < n" and "n \<le> length x"
  shows "\<exists>v. fold (\<lambda>i x. x[i := N i x / d i]) (rev [0..<n]) x ! k = v / d k"
  using assms
proof (induction n arbitrary: x)
  case 0
  then show ?case by simp
next
  case (Suc n)
  let ?x = "x[n := N n x / d n]"
  have unf: "fold (\<lambda>i x. x[i := N i x / d i]) (rev [0..<Suc n]) x
             = fold (\<lambda>i x. x[i := N i x / d i]) (rev [0..<n]) ?x" by simp
  show ?case
  proof (cases "k = n")
    case True
    have "fold (\<lambda>i x. x[i := N i x / d i]) (rev [0..<n]) ?x ! n = ?x ! n"
      by (rule fold_rev_update_keeps) simp
    then show ?thesis using True Suc.prems unf by auto
  next
    case False
    then have "k < n" "n \<le> length ?x" using Suc.prems by simp_all
    from Suc.IH[OF this] show ?thesis using unf by simp
  qed
qed

lemma back_substitution_quotient:
  "k < n \<Longrightarrow> n \<le> length b \<Longrightarrow> \<exists>v. back_substitution n A b ! k = v / A ! k ! k"
  unfolding back_substitution_def back_step_def [abs_def]
  by (rule fold_rev_update_quotient
      [where N = "\<lambda>k b. b ! k - dot (slice (A ! k) (k + 1) n) (slice b (k + 1) n)"
         and d = "\<lambda>k. A ! k ! k"])

lemma backward_sub_quotient:
  "k < n \<Longrightarrow> \<exists>v. backward_sub u y n ! k = v / u ! k ! k"
  unfolding backward_sub_def
  by (rule fold_rev_update_quotient
      [where N = "\<lambda>i x. y ! i - fold (\<lambda>j s. s + u ! i ! j * x ! j) [i + 1..<n] 0"
         and d = "\<lambda>k. u ! k ! k"]) (simp_all add: zeros_def)

lemma gauss_body_length_b: "length (snd (gauss_body n i j Ab)) = length (snd Ab)"
  by (cases Ab) (simp add: gauss_body_def gauss_swap_def gauss_eliminate_def Let_def)

lemma fold_gauss_body_length_b:
  "length (snd (fold (\<lambda>(i, j). gauss_body n i j) ps Ab)) = length (snd Ab)"
  by (induction ps arbitrary: Ab) (auto simp: gauss_body_length_b)

lemma forward_elimination_length_b:
  "length (snd (forward_elimination n Ab)) = length (snd Ab)"
  by (simp add: forward_elimination_pairs fold_gauss_body_length_b)

text \<open>
  C2 (as the code has it). Neither direct solver tests a pivot or raises: when the pivot
  of row \<open>k\<close> that the back substitution divides by is exactly zero (\<open>A[k,k]\<close> after the
  elimination in \<open>pivot_gauss\<close>, \<open>U[k,k]\<close> in \<open>lu_decomposition_doolittle\<close>), the call returns
  a vector whose component \<open>k\<close> is \<^verbatim>\<open>nan\<close> or an infinity.
\<close>

theorem zero_pivot_gives_non_finite:
  assumes "k < length A" and "length A \<le> length b"
  shows "(fst (forward_elimination (length A) (A, b)) ! k ! k = 0
            \<longrightarrow> \<not> finite_flt (pivot_gauss A b ! k))
       \<and> (snd (lu_factor A) ! k ! k = 0
            \<longrightarrow> \<not> finite_flt (lu_decomposition_doolittle A b ! k))"
proof (intro conjI impI)
  obtain A' b' where e: "forward_elimination (length A) (A, b) = (A', b')"
    by (cases "forward_elimination (length A) (A, b)")
  assume "fst (forward_elimination (length A) (A, b)) ! k ! k = 0"
  then have z: "A' ! k ! k = 0" using e by simp
  have "length b' = length b"
    using forward_elimination_length_b[of "length A" "(A, b)"] e by simp
  then have "length A \<le> length b'" using assms(2) by simp
  from back_substitution_quotient[OF assms(1) this, of A']
  obtain v where "back_substitution (length A) A' b' ! k = v / 0" using z by auto
  then show "\<not> finite_flt (pivot_gauss A b ! k)"
    using e by (simp add: pivot_gauss_def div_zero_not_finite)
next
  obtain l u where f: "lu_factor A = (l, u)" by (cases "lu_factor A")
  assume "snd (lu_factor A) ! k ! k = 0"
  then have z: "u ! k ! k = 0" using f by simp
  from backward_sub_quotient[OF assms(1), of u "forward_sub l b (length A)"]
  obtain v where "backward_sub u (forward_sub l b (length A)) (length A) ! k = v / 0"
    using z by auto
  then show "\<not> finite_flt (lu_decomposition_doolittle A b ! k)"
    using f by (simp add: lu_decomposition_doolittle_def div_zero_not_finite Let_def)
qed

lemmas direct_eval =
  pivot_gauss_def forward_elimination_def gauss_body_def gauss_swap_def gauss_eliminate_def
  back_substitution_def back_step_def slice_def
  lu_decomposition_doolittle_def lu_factor_def lu_step_def u_row_def l_col_def lu_sum_def
  forward_sub_def backward_sub_def zeros_def zeros2_def

lemma pivot_gauss_singular:
  "pivot_gauss [[Fin 1, Fin 1], [Fin 1, Fin 1]] [Fin 1, Fin 2] = [NInf, PInf]"
  by (simp add: direct_eval arr_eval flt_cmp Let_def numeral_2_eq_2)

lemma lu_zero_pivot:
  "lu_decomposition_doolittle [[Fin 0, Fin 1], [Fin 1, Fin 0]] [Fin 1, Fin 1] = [NaN, NaN]"
  by (simp add: direct_eval arr_eval flt_cmp Let_def numeral_2_eq_2)


text \<open>
  C2 (as the claim states it) fails: on a singular system \<open>pivot_gauss\<close> divides by the
  zero pivot \<open>A[1,1]\<close> and returns infinities, and \<open>lu_decomposition_doolittle\<close> divides by
  \<open>U[0,0] = 0\<close> in its recurrence and returns \<^verbatim>\<open>nan\<close>s; no error is raised.
\<close>

theorem zero_pivot_not_surfaced_counterexample:
  "fst (forward_elimination 2 ([[Fin 1, Fin 1], [Fin 1, Fin 1]], [Fin 1, Fin 2])) ! 1 ! 1 = 0
   \<and> pivot_gauss [[Fin 1, Fin 1], [Fin 1, Fin 1]] [Fin 1, Fin 2] = [NInf, PInf]
   \<and> snd (lu_factor [[Fin 0, Fin 1], [Fin 1, Fin 0]]) ! 0 ! 0 = 0
   \<and> lu_decomposition_doolittle [[Fin 0, Fin 1], [Fin 1, Fin 0]] [Fin 1, Fin 1] = [NaN, NaN]"
  using pivot_gauss_singular lu_zero_pivot
  by (simp add: direct_eval arr_eval flt_cmp Let_def numeral_2_eq_2)

theorem zero_pivot_gives_non_finite_witness:
  "\<not> finite_flt (pivot_gauss [[Fin 1, Fin 1], [Fin 1, Fin 1]] [Fin 1, Fin 2] ! 1)
   \<and> \<not> finite_flt (lu_decomposition_doolittle [[Fin 0, Fin 1], [Fin 1, Fin 0]] [Fin 1, Fin 1] ! 0)"
proof -
  have a: "fst (forward_elimination 2 ([[Fin 1, Fin 1], [Fin 1, Fin 1]], [Fin 1, Fin 2])) ! 1 ! 1 = 0"
    by (simp add: direct_eval arr_eval flt_cmp Let_def numeral_2_eq_2)
  have b: "snd (lu_factor [[Fin 0, Fin 1], [Fin 1, Fin 0]]) ! 0 ! 0 = 0"
    by (simp add: direct_eval arr_eval flt_cmp Let_def numeral_2_eq_2)
  show ?thesis
    using zero_pivot_gives_non_finite [of 1 "[[Fin 1, Fin 1], [Fin 1, Fin 1]]" "[Fin 1, Fin 2]"]
      zero_pivot_gives_non_finite [of 0 "[[Fin 0, Fin 1], [Fin 1, Fin 0]]" "[Fin 1, Fin 1]"]
      a b
    by (simp add: numeral_2_eq_2)
qed

lemma set2_other: "(a, b) \<noteq> (i, j) \<Longrightarrow> set2 M i j v ! a ! b = M ! a ! b"
  by (cases "a = i"; cases "i < length M") (auto simp: set2_def list_update_beyond)

lemma set2_same: "i < length M \<Longrightarrow> j < length (M ! i) \<Longrightarrow> set2 M i j v ! i ! j = v"
  by (simp add: set2_def)

lemma set2_length [simp]: "length (set2 M i j v) = length M"
  by (simp add: set2_def)

lemma set2_row_length [simp]: "length (set2 M i j v ! a) = length (M ! a)"
  by (cases "a = i"; cases "i < length M") (auto simp: set2_def list_update_beyond)

lemma fold_set2:
  fixes f :: "nat \<times> nat \<Rightarrow> mat \<Rightarrow> flt"
  assumes "\<And>p M'. p \<in> set ps \<Longrightarrow> (\<forall>a b. (a, b) \<notin> set ps \<longrightarrow> M' ! a ! b = M ! a ! b) \<Longrightarrow> f p M' = v p"
    and "\<forall>(i, j)\<in>set ps. i < length M \<and> j < length (M ! i)"
  shows "length (fold (\<lambda>p M. set2 M (fst p) (snd p) (f p M)) ps M) = length M
       \<and> (\<forall>a. length (fold (\<lambda>p M. set2 M (fst p) (snd p) (f p M)) ps M ! a) = length (M ! a))
       \<and> (\<forall>a b. fold (\<lambda>p M. set2 M (fst p) (snd p) (f p M)) ps M ! a ! b
              = (if (a, b) \<in> set ps then v (a, b) else M ! a ! b))"
  using assms
proof (induction ps rule: rev_induct)
  case Nil
  then show ?case by simp
next
  case (snoc p ps)
  let ?R = "fold (\<lambda>p M. set2 M (fst p) (snd p) (f p M)) ps M"
  have IH: "length ?R = length M" "\<And>a. length (?R ! a) = length (M ! a)"
    "\<And>a b. ?R ! a ! b = (if (a, b) \<in> set ps then v (a, b) else M ! a ! b)"
  proof -
    have p1: "f q M' = v q"
      if "q \<in> set ps" "\<forall>a b. (a, b) \<notin> set ps \<longrightarrow> M' ! a ! b = M ! a ! b" for q M'
      using that snoc.prems(1)[of q M'] by simp
    have p2: "\<forall>(i, j)\<in>set ps. i < length M \<and> j < length (M ! i)"
      using snoc.prems(2) by simp
    note r = snoc.IH[OF p1 p2]
    show "length ?R = length M" using r by blast
    show "\<And>a. length (?R ! a) = length (M ! a)" using r by blast
    show "\<And>a b. ?R ! a ! b = (if (a, b) \<in> set ps then v (a, b) else M ! a ! b)" using r by blast
  qed
  have "\<forall>a b. (a, b) \<notin> set (ps @ [p]) \<longrightarrow> ?R ! a ! b = M ! a ! b"
    using IH(3) by simp
  then have fp: "f p ?R = v p" using snoc.prems(1)[of p ?R] by simp
  obtain i j where p: "p = (i, j)" by (cases p)
  have inb: "i < length ?R" "j < length (?R ! i)"
    using snoc.prems(2) p IH(1,2) by auto
  have step: "fold (\<lambda>p M. set2 M (fst p) (snd p) (f p M)) (ps @ [p]) M = set2 ?R i j (v p)"
    using fp p by simp
  have ent: "set2 ?R i j (v p) ! a ! b = (if (a, b) \<in> set (ps @ [p]) then v (a, b) else M ! a ! b)"
    for a b
  proof (cases "(a, b) = (i, j)")
    case True
    then show ?thesis using inb p by (simp add: set2_same)
  next
    case False
    then show ?thesis using p IH(3) by (auto simp: set2_other)
  qed
  show ?case unfolding step using ent IH(1,2) by simp
qed


lemma fold_add_foldl: "fold (\<lambda>t s. s + g t) ts a = foldl (+) a (map g ts)" for a :: flt
  by (induction ts arbitrary: a) simp_all

lemma lu_sum_fsum: "lu_sum l u i j m = fsum (map (\<lambda>t. l ! i ! t * u ! t ! j) [0..<m])"
  by (simp add: lu_sum_def fold_add_foldl fsum_def)

lemma lu_sum_cong:
  assumes "\<And>t. t < m \<Longrightarrow> l ! i ! t = l' ! i ! t" and "\<And>t. t < m \<Longrightarrow> u ! t ! j = u' ! t ! j"
  shows "lu_sum l u i j m = lu_sum l' u' i j m"
proof -
  have "map (\<lambda>t. l ! i ! t * u ! t ! j) [0..<m] = map (\<lambda>t. l' ! i ! t * u' ! t ! j) [0..<m]"
    using assms by (intro map_cong) auto
  then show ?thesis by (simp only: lu_sum_fsum)
qed

lemma u_row_entries:
  assumes "square n u" and "k < n"
  shows "square n (u_row A n k l u)
       \<and> (\<forall>a b. u_row A n k l u ! a ! b
             = (if a = k \<and> k \<le> b \<and> b < n then A ! k ! b - lu_sum l u k b k else u ! a ! b))"
proof -
  let ?f = "\<lambda>p M. A ! fst p ! snd p - lu_sum l M (fst p) (snd p) k"
  let ?v = "\<lambda>p. A ! fst p ! snd p - lu_sum l u (fst p) (snd p) k"
  let ?ps = "map (Pair k) [k..<n]"
  have eq: "u_row A n k l u = fold (\<lambda>p M. set2 M (fst p) (snd p) (?f p M)) ?ps u"
    by (simp add: u_row_def fold_map comp_def)
  have indep: "?f p M' = ?v p"
    if "p \<in> set ?ps" "\<forall>a b. (a, b) \<notin> set ?ps \<longrightarrow> M' ! a ! b = u ! a ! b" for p M'
  proof -
    have "lu_sum l M' (fst p) (snd p) k = lu_sum l u (fst p) (snd p) k"
      using that by (intro lu_sum_cong) auto
    then show ?thesis by simp
  qed
  have inb: "\<forall>(i, j)\<in>set ?ps. i < length u \<and> j < length (u ! i)"
    using assms by (auto simp: square_def list_all_length)
  from fold_set2[of ?ps u ?f ?v, OF indep inb]
  have r: "length (u_row A n k l u) = length u"
    "\<And>a. length (u_row A n k l u ! a) = length (u ! a)"
    "\<And>a b. u_row A n k l u ! a ! b = (if (a, b) \<in> set ?ps then ?v (a, b) else u ! a ! b)"
    unfolding eq by blast+
  have "square n (u_row A n k l u)"
    using assms(1) r(1,2) by (simp add: square_def list_all_length)
  moreover have "u_row A n k l u ! a ! b
             = (if a = k \<and> k \<le> b \<and> b < n then A ! k ! b - lu_sum l u k b k else u ! a ! b)" for a b
    unfolding r(3) by auto
  ultimately show ?thesis by blast
qed

lemma l_col_entries:
  assumes "square n l" and "k < n"
  shows "square n (l_col A n k u l)
       \<and> (\<forall>a b. l_col A n k u l ! a ! b
             = (if b = k \<and> k < a \<and> a < n then (A ! a ! k - lu_sum l u a k k) / u ! k ! k
                else l ! a ! b))"
proof -
  let ?f = "\<lambda>p M. (A ! fst p ! snd p - lu_sum M u (fst p) (snd p) k) / u ! k ! k"
  let ?v = "\<lambda>p. (A ! fst p ! snd p - lu_sum l u (fst p) (snd p) k) / u ! k ! k"
  let ?ps = "map (\<lambda>i. (i, k)) [k + 1..<n]"
  have eq: "l_col A n k u l = fold (\<lambda>p M. set2 M (fst p) (snd p) (?f p M)) ?ps l"
    by (simp add: l_col_def fold_map comp_def)
  have indep: "?f p M' = ?v p"
    if "p \<in> set ?ps" "\<forall>a b. (a, b) \<notin> set ?ps \<longrightarrow> M' ! a ! b = l ! a ! b" for p M'
  proof -
    have "lu_sum M' u (fst p) (snd p) k = lu_sum l u (fst p) (snd p) k"
      using that by (intro lu_sum_cong) auto
    then show ?thesis by simp
  qed
  have inb: "\<forall>(i, j)\<in>set ?ps. i < length l \<and> j < length (l ! i)"
    using assms by (auto simp: square_def list_all_length)
  from fold_set2[of ?ps l ?f ?v, OF indep inb]
  have r: "length (l_col A n k u l) = length l"
    "\<And>a. length (l_col A n k u l ! a) = length (l ! a)"
    "\<And>a b. l_col A n k u l ! a ! b = (if (a, b) \<in> set ?ps then ?v (a, b) else l ! a ! b)"
    unfolding eq by blast+
  have "square n (l_col A n k u l)"
    using assms(1) r(1,2) by (simp add: square_def list_all_length)
  moreover have "l_col A n k u l ! a ! b
             = (if b = k \<and> k < a \<and> a < n then (A ! a ! k - lu_sum l u a k k) / u ! k ! k
                else l ! a ! b)" for a b
    unfolding r(3) by auto
  ultimately show ?thesis by blast
qed


lemma lu_inv_init: "lu_inv n A 0 (eye n) (zeros2 n n)"
  by (simp add: lu_inv_def square_def eye_def zeros2_def zeros_def list_all_length)

lemma lu_inv_step:
  assumes inv: "lu_inv n A k l u" and k: "k < n"
  defines "u' \<equiv> u_row A n k l u"
  defines "l' \<equiv> l_col A n k u' l"
  shows "lu_inv n A (Suc k) l' u'"
proof -
  note I = inv[unfolded lu_inv_def]
  have sq: "square n l" "square n u"
    using I by (rule conjunct1, rule conjunct2[THEN conjunct1])
  have L0': "\<forall>i<n. \<forall>j<n. k \<le> j \<or> i \<le> j \<longrightarrow> l ! i ! j = (if i = j then 1 else 0)"
    using I by (rule conjunct2[THEN conjunct2, THEN conjunct1])
  have U0': "\<forall>i<n. \<forall>j<n. k \<le> i \<or> j < i \<longrightarrow> u ! i ! j = 0"
    using I by (rule conjunct2[THEN conjunct2, THEN conjunct2, THEN conjunct1])
  have UR': "\<forall>i<k. \<forall>j<n. i \<le> j \<longrightarrow> u ! i ! j = A ! i ! j - lu_sum l u i j i"
    using I by (rule conjunct2[THEN conjunct2, THEN conjunct2, THEN conjunct2, THEN conjunct1])
  have LR': "\<forall>j<k. \<forall>i<n. j < i \<longrightarrow> l ! i ! j = (A ! i ! j - lu_sum l u i j j) / u ! j ! j"
    using I by (rule conjunct2[THEN conjunct2, THEN conjunct2, THEN conjunct2, THEN conjunct2])
  have L0: "l ! i ! j = (if i = j then 1 else 0)" if "i < n" "j < n" "k \<le> j \<or> i \<le> j" for i j
    using L0' that by blast
  have U0: "u ! i ! j = 0" if "i < n" "j < n" "k \<le> i \<or> j < i" for i j
    using U0' that by blast
  have UR: "u ! i ! j = A ! i ! j - lu_sum l u i j i" if "i < k" "j < n" "i \<le> j" for i j
    using UR' that by blast
  have LR: "l ! i ! j = (A ! i ! j - lu_sum l u i j j) / u ! j ! j" if "j < k" "i < n" "j < i" for i j
    using LR' that by blast
  have squ': "square n u'"
    and u': "\<And>a b. u' ! a ! b = (if a = k \<and> k \<le> b \<and> b < n then A ! k ! b - lu_sum l u k b k else u ! a ! b)"
    using u_row_entries[OF sq(2) k, of A l] by (simp_all add: u'_def)
  have sql': "square n l'"
    and l': "\<And>a b. l' ! a ! b = (if b = k \<and> k < a \<and> a < n then (A ! a ! k - lu_sum l u' a k k) / u' ! k ! k else l ! a ! b)"
    using l_col_entries[OF sq(1) k, of A u'] by (simp_all add: l'_def)
  have sum_eq: "lu_sum l' u' i j m = lu_sum l u i j m" if "m \<le> k" for i j m
    using that by (intro lu_sum_cong) (simp_all add: l' u')
  have sum_eq': "lu_sum l' u' i j m = lu_sum l u' i j m" if "m \<le> k" for i j m
    using that by (intro lu_sum_cong) (simp_all add: l')
  have c3: "l' ! i ! j = (if i = j then 1 else 0)" if "i < n" "j < n" "Suc k \<le> j \<or> i \<le> j" for i j
  proof -
    have "l' ! i ! j = l ! i ! j" using that by (auto simp: l')
    moreover have "k \<le> j \<or> i \<le> j" using that by auto
    ultimately show ?thesis using L0[of i j] that by simp
  qed
  have c4: "u' ! i ! j = 0" if "i < n" "j < n" "Suc k \<le> i \<or> j < i" for i j
  proof -
    have "u' ! i ! j = u ! i ! j" using that by (auto simp: u')
    moreover have "k \<le> i \<or> j < i" using that by auto
    ultimately show ?thesis using U0[of i j] that by simp
  qed
  have c5: "u' ! i ! j = A ! i ! j - lu_sum l' u' i j i" if "i < Suc k" "j < n" "i \<le> j" for i j
  proof (cases "i = k")
    case True
    then show ?thesis using that by (simp add: u' sum_eq)
  next
    case False
    then have ik: "i < k" using that by simp
    then have "u' ! i ! j = u ! i ! j" by (simp add: u')
    then show ?thesis using UR[OF ik that(2,3)] ik by (simp add: sum_eq)
  qed
  have c6: "l' ! i ! j = (A ! i ! j - lu_sum l' u' i j j) / u' ! j ! j" if "j < Suc k" "i < n" "j < i" for i j
  proof (cases "j = k")
    case True
    then show ?thesis using that by (simp add: l' sum_eq')
  next
    case False
    then have jk: "j < k" using that by simp
    then have "l' ! i ! j = l ! i ! j" "u' ! j ! j = u ! j ! j" by (simp_all add: l' u')
    then show ?thesis using LR[OF jk that(2,3)] jk by (simp add: sum_eq)
  qed
  show ?thesis
    unfolding lu_inv_def
  proof (intro conjI allI impI)
    show "square n l'" by (rule sql')
    show "square n u'" by (rule squ')
    show "l' ! i ! j = (if i = j then 1 else 0)" if "i < n" "j < n" "Suc k \<le> j \<or> i \<le> j" for i j
      using that by (rule c3)
    show "u' ! i ! j = 0" if "i < n" "j < n" "Suc k \<le> i \<or> j < i" for i j
      using that by (rule c4)
    show "u' ! i ! j = A ! i ! j - lu_sum l' u' i j i" if "i < Suc k" "j < n" "i \<le> j" for i j
      using that by (rule c5)
    show "l' ! i ! j = (A ! i ! j - lu_sum l' u' i j j) / u' ! j ! j" if "j < Suc k" "i < n" "j < i" for i j
      using that by (rule c6)
  qed
qed

lemma lu_inv_fold:
  "k \<le> n \<Longrightarrow> case fold (lu_step A n) [0..<k] (eye n, zeros2 n n) of (l, u) \<Rightarrow> lu_inv n A k l u"
proof (induction k)
  case 0
  then show ?case by (simp add: lu_inv_init)
next
  case (Suc k)
  obtain l u where lu: "fold (lu_step A n) [0..<k] (eye n, zeros2 n n) = (l, u)"
    by (cases "fold (lu_step A n) [0..<k] (eye n, zeros2 n n)")
  then have "lu_inv n A k l u" using Suc by simp
  then have "lu_inv n A (Suc k) (l_col A n k (u_row A n k l u) l) (u_row A n k l u)"
    using Suc.prems by (intro lu_inv_step) simp_all
  moreover have "fold (lu_step A n) [0..<Suc k] (eye n, zeros2 n n) = lu_step A n k (l, u)"
    using lu by simp
  moreover have "lu_step A n k (l, u) = (l_col A n k (u_row A n k l u) l, u_row A n k l u)"
    by (simp add: lu_step_def Let_def)
  ultimately show ?case by simp
qed

lemma lu_factor_inv:
  "lu_factor A = (L, U) \<Longrightarrow> lu_inv (length A) A (length A) L U"
  using lu_inv_fold[of "length A" "length A" A] by (simp add: lu_factor_def Let_def)


lemma finite_flt_iff: "finite_flt x \<longleftrightarrow> (\<exists>a. x = Fin a)"
  by (cases x) simp_all

lemma finite_flt_add: "finite_flt x \<Longrightarrow> finite_flt y \<Longrightarrow> finite_flt (x + y)"
  by (auto simp: finite_flt_iff plus_flt_def)

lemma finite_flt_diff: "finite_flt x \<Longrightarrow> finite_flt y \<Longrightarrow> finite_flt (x - y)"
  by (auto simp: finite_flt_iff minus_flt_def)

lemma finite_flt_mult: "finite_flt x \<Longrightarrow> finite_flt y \<Longrightarrow> finite_flt (x * y)"
  by (auto simp: finite_flt_iff times_flt_def)

lemma finite_flt_divide: "finite_flt x \<Longrightarrow> finite_flt y \<Longrightarrow> y \<noteq> 0 \<Longrightarrow> finite_flt (x / y)"
  by (auto simp: finite_flt_iff divide_flt_def zero_flt_def)

lemma finite_flt_0_1 [simp]: "finite_flt 0" "finite_flt 1"
  by (simp_all add: zero_flt_def one_flt_def)

lemma finite_flt_fsum: "(\<And>x. x \<in> set xs \<Longrightarrow> finite_flt x) \<Longrightarrow> finite_flt (fsum xs)"
proof (induction xs rule: rev_induct)
  case Nil
  then show ?case by (simp add: fsum_def)
next
  case (snoc x xs)
  have "fsum (xs @ [x]) = fsum xs + x" by (simp add: fsum_def)
  then show ?case using snoc by (simp add: finite_flt_add)
qed

lemma fsum_zeros: "(\<And>x. x \<in> set xs \<Longrightarrow> x = 0) \<Longrightarrow> fsum xs = 0"
proof (induction xs rule: rev_induct)
  case Nil
  then show ?case by (simp add: fsum_def)
next
  case (snoc x xs)
  have "fsum (xs @ [x]) = fsum xs + x" by (simp add: fsum_def)
  then show ?case using snoc by simp
qed

lemma flt_mult_zero: "finite_flt x \<Longrightarrow> 0 * x = 0" "finite_flt x \<Longrightarrow> x * 0 = 0"
  by (auto simp: finite_flt_iff times_flt_def zero_flt_def)

lemma flt_mult_one: "1 * x = x" for x :: flt
  by (cases x) (simp_all add: times_flt_def one_flt_def inf_sgn_def)

lemma flt_add_diff_cancel: "finite_flt s \<Longrightarrow> finite_flt a \<Longrightarrow> s + (a - s) = a"
  by (auto simp: finite_flt_iff plus_flt_def minus_flt_def)

lemma flt_add_div_mult_cancel:
  assumes "finite_flt s" "finite_flt a" "finite_flt d" "d \<noteq> 0"
  shows "s + (a - s) / d * d = a"
proof -
  obtain s' a' d' where e: "s = Fin s'" "a = Fin a'" "d = Fin d'"
    using assms(1-3) by (auto simp: finite_flt_iff)
  then have "d' \<noteq> 0" using assms(4) by (simp add: zero_flt_def)
  then show ?thesis
    using e by (simp add: plus_flt_def minus_flt_def divide_flt_def times_flt_def)
qed

lemma upt_split3: "m < n \<Longrightarrow> [0..<n] = [0..<m] @ m # [Suc m..<n]"
  by (metis le_add2 less_imp_add_positive upt_add_eq_append upt_conv_Cons plus_nat.add_0 zero_le Suc_leI less_or_eq_imp_le upt_rec)


lemma all_finite_nth: "all_finite A \<Longrightarrow> i < length A \<Longrightarrow> j < length (A ! i) \<Longrightarrow> finite_flt (A ! i ! j)"
  by (simp add: all_finite_def list_all_length)

lemma all_finite_square_iff:
  "square n A \<Longrightarrow> all_finite A \<longleftrightarrow> (\<forall>i<n. \<forall>j<n. finite_flt (A ! i ! j))"
  by (auto simp: all_finite_def square_def list_all_length)

lemma lu_finite:
  assumes sq: "square n A" and fin: "all_finite A"
    and inv: "lu_inv n A n L U"
    and piv: "\<forall>k. Suc k < n \<longrightarrow> U ! k ! k \<noteq> 0"
  shows "m \<le> n \<Longrightarrow> \<forall>i<n. \<forall>j<n. min i j < m \<longrightarrow> finite_flt (L ! i ! j) \<and> finite_flt (U ! i ! j)"
proof (induction m)
  case 0
  then show ?case by simp
next
  case (Suc m)
  note I = inv[unfolded lu_inv_def]
  have L0': "\<forall>i<n. \<forall>j<n. n \<le> j \<or> i \<le> j \<longrightarrow> L ! i ! j = (if i = j then 1 else 0)"
    using I by (rule conjunct2[THEN conjunct2, THEN conjunct1])
  have U0': "\<forall>i<n. \<forall>j<n. n \<le> i \<or> j < i \<longrightarrow> U ! i ! j = 0"
    using I by (rule conjunct2[THEN conjunct2, THEN conjunct2, THEN conjunct1])
  have UR': "\<forall>i<n. \<forall>j<n. i \<le> j \<longrightarrow> U ! i ! j = A ! i ! j - lu_sum L U i j i"
    using I by (rule conjunct2[THEN conjunct2, THEN conjunct2, THEN conjunct2, THEN conjunct1])
  have LR': "\<forall>j<n. \<forall>i<n. j < i \<longrightarrow> L ! i ! j = (A ! i ! j - lu_sum L U i j j) / U ! j ! j"
    using I by (rule conjunct2[THEN conjunct2, THEN conjunct2, THEN conjunct2, THEN conjunct2])
  have IH: "finite_flt (L ! i ! j)" "finite_flt (U ! i ! j)" if "i < n" "j < n" "min i j < m" for i j
    using Suc that by auto
  have finA: "finite_flt (A ! i ! j)" if "i < n" "j < n" for i j
    using sq fin that by (simp add: all_finite_square_iff)
  have mn: "m < n" using Suc.prems by simp
  have fsumfin: "finite_flt (lu_sum L U i j m)" if "i < n" "j < n" "m \<le> i" "m \<le> j" for i j
    unfolding lu_sum_fsum
  proof (rule finite_flt_fsum)
    fix x assume "x \<in> set (map (\<lambda>t. L ! i ! t * U ! t ! j) [0..<m])"
    then obtain t where t: "t < m" "x = L ! i ! t * U ! t ! j" by auto
    have "finite_flt (L ! i ! t)" using IH(1)[of i t] t that mn by simp
    moreover have "finite_flt (U ! t ! j)" using IH(2)[of t j] t that mn by simp
    ultimately show "finite_flt x" using t by (simp add: finite_flt_mult)
  qed
  have Um: "finite_flt (U ! m ! j)" if "j < n" "m \<le> j" for j
  proof -
    have "U ! m ! j = A ! m ! j - lu_sum L U m j m" using UR' mn that by blast
    then show ?thesis using finA[OF mn that(1)] fsumfin[OF mn that(1) _ that(2)]
      by (simp add: finite_flt_diff)
  qed
  have Lm: "finite_flt (L ! i ! m)" if "i < n" "m < i" for i
  proof -
    have "L ! i ! m = (A ! i ! m - lu_sum L U i m m) / U ! m ! m" using LR' mn that by blast
    moreover have "U ! m ! m \<noteq> 0" using piv that by simp
    moreover have "finite_flt (U ! m ! m)" using Um[OF mn] by simp
    moreover have "finite_flt (A ! i ! m - lu_sum L U i m m)"
      using finA[OF that(1) mn] fsumfin[OF that(1) mn] that by (simp add: finite_flt_diff)
    ultimately show ?thesis by (simp add: finite_flt_divide)
  qed
  show ?case
  proof (intro allI impI)
    fix i j assume ij: "i < n" "j < n" "min i j < Suc m"
    show "finite_flt (L ! i ! j) \<and> finite_flt (U ! i ! j)"
    proof (cases "min i j < m")
      case True
      then show ?thesis using IH ij by simp
    next
      case False
      then have mm: "min i j = m" using ij by simp
      show ?thesis
      proof (cases "i \<le> j")
        case True
        then have im: "i = m" using mm by simp
        have "L ! i ! j = (if i = j then 1 else 0)" using L0' ij True by blast
        then have "finite_flt (L ! i ! j)" by simp
        moreover have "finite_flt (U ! i ! j)" using Um[of j] ij True im by simp
        ultimately show ?thesis by simp
      next
        case False
        then have jm: "j = m" "m < i" using mm by auto
        have "U ! i ! j = 0" using U0' ij False by auto
        then have "finite_flt (U ! i ! j)" by simp
        moreover have "finite_flt (L ! i ! j)" using Lm[of i] ij jm by simp
        ultimately show ?thesis by simp
      qed
    qed
  qed
qed


lemma lu_product:
  assumes sq: "square n A" and fin: "all_finite A"
    and inv: "lu_inv n A n L U"
    and piv: "\<forall>k. Suc k < n \<longrightarrow> U ! k ! k \<noteq> 0"
    and ij: "i < n" "j < n"
  shows "fsum (map (\<lambda>t. L ! i ! t * U ! t ! j) [0..<n]) = A ! i ! j"
proof -
  note I = inv[unfolded lu_inv_def]
  have L0': "\<forall>i<n. \<forall>j<n. n \<le> j \<or> i \<le> j \<longrightarrow> L ! i ! j = (if i = j then 1 else 0)"
    using I by (rule conjunct2[THEN conjunct2, THEN conjunct1])
  have U0': "\<forall>i<n. \<forall>j<n. n \<le> i \<or> j < i \<longrightarrow> U ! i ! j = 0"
    using I by (rule conjunct2[THEN conjunct2, THEN conjunct2, THEN conjunct1])
  have UR': "\<forall>i<n. \<forall>j<n. i \<le> j \<longrightarrow> U ! i ! j = A ! i ! j - lu_sum L U i j i"
    using I by (rule conjunct2[THEN conjunct2, THEN conjunct2, THEN conjunct2, THEN conjunct1])
  have LR': "\<forall>j<n. \<forall>i<n. j < i \<longrightarrow> L ! i ! j = (A ! i ! j - lu_sum L U i j j) / U ! j ! j"
    using I by (rule conjunct2[THEN conjunct2, THEN conjunct2, THEN conjunct2, THEN conjunct2])
  have finLU: "finite_flt (L ! a ! b)" "finite_flt (U ! a ! b)" if "a < n" "b < n" for a b
    using lu_finite[OF sq fin inv piv, of n] that by auto
  have finA: "finite_flt (A ! i ! j)"
    using sq fin ij by (simp add: all_finite_square_iff)
  let ?f = "\<lambda>t. L ! i ! t * U ! t ! j"
  define m where "m = min i j"
  have m: "m < n" "m \<le> i" "m \<le> j" using ij by (simp_all add: m_def)
  have finS: "finite_flt (lu_sum L U i j m)"
    unfolding lu_sum_fsum
  proof (rule finite_flt_fsum)
    fix x assume "x \<in> set (map ?f [0..<m])"
    then obtain t where t: "t < m" "x = ?f t" by auto
    then show "finite_flt x" using finLU[of i t] finLU[of t j] ij m by (simp add: finite_flt_mult)
  qed
  have tail: "fsum (map ?f [Suc m..<n]) = 0"
  proof (rule fsum_zeros)
    fix x assume "x \<in> set (map ?f [Suc m..<n])"
    then obtain t where t: "m < t" "t < n" "x = ?f t" by (auto simp: Suc_le_eq)
    show "x = 0"
    proof (cases "i \<le> j")
      case True
      then have "i < t" using t by (simp add: m_def)
      then have "L ! i ! t = 0" using L0' ij t by auto
      then show ?thesis using t finLU(2)[of t j] ij by (simp add: flt_mult_zero)
    next
      case False
      then have "j < t" using t by (simp add: m_def)
      then have "U ! t ! j = 0" using U0' ij t by auto
      then show ?thesis using t finLU(1)[of i t] ij by (simp add: flt_mult_zero)
    qed
  qed
  have "fsum (map ?f [0..<n]) = fsum (map ?f [0..<m]) + fsum (?f m # map ?f [Suc m..<n])"
    using upt_split3[OF m(1)] fsum_append[of "map ?f [0..<m]" "?f m # map ?f [Suc m..<n]"] by simp
  also have "fsum (?f m # map ?f [Suc m..<n]) = ?f m + fsum (map ?f [Suc m..<n])"
    using fsum_append[of "[?f m]" "map ?f [Suc m..<n]"] by (simp add: fsum_def)
  also have "\<dots> = ?f m" by (simp add: tail)
  finally have split: "fsum (map ?f [0..<n]) = lu_sum L U i j m + ?f m"
    by (simp add: lu_sum_fsum)
  show ?thesis
  proof (cases "i \<le> j")
    case True
    then have mi: "m = i" by (simp add: m_def)
    have "L ! i ! i = 1" using L0' ij by auto
    moreover have "U ! i ! j = A ! i ! j - lu_sum L U i j i" using UR' ij True by blast
    ultimately have "?f m = A ! i ! j - lu_sum L U i j i" using mi by (simp add: flt_mult_one)
    then show ?thesis using split finS finA mi by (simp add: flt_add_diff_cancel)
  next
    case False
    then have mj: "m = j" "j < i" by (simp_all add: m_def)
    have "L ! i ! j = (A ! i ! j - lu_sum L U i j j) / U ! j ! j" using LR' ij mj by blast
    moreover have "U ! j ! j \<noteq> 0" using piv mj ij by simp
    moreover have "finite_flt (U ! j ! j)" using finLU(2)[of j j] ij by simp
    ultimately show ?thesis using split finS finA mj by (simp add: flt_add_div_mult_cancel)
  qed
qed

lemma dot_nth:
  assumes "length r = n" "length M = n"
  shows "dot r (col M j) = fsum (map (\<lambda>t. r ! t * M ! t ! j) [0..<n])"
proof -
  have "map2 (*) r (col M j) = map (\<lambda>t. r ! t * M ! t ! j) [0..<n]"
    using assms by (intro nth_equalityI) (simp_all add: col_def)
  then show ?thesis by (simp add: dot_def fsum_def)
qed

lemma mat_mat_eqI:
  assumes "square n L" "square n U" "square n A"
    and "\<And>i j. i < n \<Longrightarrow> j < n \<Longrightarrow> fsum (map (\<lambda>t. L ! i ! t * U ! t ! j) [0..<n]) = A ! i ! j"
  shows "mat_mat L U = A"
proof (cases "n = 0")
  case True
  then show ?thesis using assms(1,3) by (simp add: square_def mat_mat_def)
next
  case False
  then have nc: "ncols U = n" using assms(2) ncols_square by simp
  have len: "length L = n" "length U = n" "length A = n"
    using assms(1-3) by (simp_all add: square_def)
  show ?thesis
  proof (rule nth_equalityI)
    show "length (mat_mat L U) = length A" using len by (simp add: mat_mat_def)
  next
    fix i assume "i < length (mat_mat L U)"
    then have i: "i < n" using len by (simp add: mat_mat_def)
    have li: "length (L ! i) = n" "length (A ! i) = n"
      using assms(1,3) i by (simp_all add: square_row)
    have "vec_mat (L ! i) U = A ! i"
    proof (rule nth_equalityI)
      show "length (vec_mat (L ! i) U) = length (A ! i)" using li nc by (simp add: vec_mat_def)
    next
      fix j assume "j < length (vec_mat (L ! i) U)"
      then have j: "j < n" using nc by (simp add: vec_mat_def)
      then show "vec_mat (L ! i) U ! j = A ! i ! j"
        using assms(4)[OF i j] dot_nth[OF li(1) len(2), of j] nc by (simp add: vec_mat_def)
    qed
    then show "mat_mat L U ! i = A ! i" using i len by (simp add: mat_mat_def)
  qed
qed


text \<open>
  C8. For a square matrix \<open>A\<close> of finite entries, let \<open>L\<close> and \<open>U\<close> be the factors that
  \<open>lu_decomposition_doolittle\<close> builds. When every pivot \<open>U[k,k]\<close> the recurrence divides by
  (\<open>k < n - 1\<close>) is nonzero, \<open>L\<close> is unit lower triangular, \<open>U\<close> is upper triangular, both
  obey the Doolittle recurrence, all their entries are finite, and the product \<open>L U\<close>
  equals \<open>A\<close> entry by entry in exact arithmetic.
\<close>

theorem lu_decomposition_doolittle_factors:
  assumes "square n A" and "all_finite A" and "lu_factor A = (L, U)"
    and "\<forall>k. Suc k < n \<longrightarrow> U ! k ! k \<noteq> 0"
  shows "square n L \<and> square n U
    \<and> (\<forall>i<n. L ! i ! i = 1 \<and> (\<forall>j<n. i < j \<longrightarrow> L ! i ! j = 0))
    \<and> (\<forall>i<n. \<forall>j<n. j < i \<longrightarrow> U ! i ! j = 0)
    \<and> (\<forall>k<n. \<forall>j<n. k \<le> j \<longrightarrow>
          U ! k ! j = A ! k ! j - fsum (map (\<lambda>t. L ! k ! t * U ! t ! j) [0..<k]))
    \<and> (\<forall>k<n. \<forall>i<n. k < i \<longrightarrow>
          L ! i ! k = (A ! i ! k - fsum (map (\<lambda>t. L ! i ! t * U ! t ! k) [0..<k])) / U ! k ! k)
    \<and> all_finite L \<and> all_finite U
    \<and> mat_mat L U = A"
proof -
  have n: "length A = n" using assms(1) by (simp add: square_def)
  have inv: "lu_inv n A n L U" using lu_factor_inv[OF assms(3)] n by simp
  note I = inv[unfolded lu_inv_def]
  have sq: "square n L" "square n U"
    using I by (rule conjunct1, rule conjunct2[THEN conjunct1])
  have L0': "\<forall>i<n. \<forall>j<n. n \<le> j \<or> i \<le> j \<longrightarrow> L ! i ! j = (if i = j then 1 else 0)"
    using I by (rule conjunct2[THEN conjunct2, THEN conjunct1])
  have U0': "\<forall>i<n. \<forall>j<n. n \<le> i \<or> j < i \<longrightarrow> U ! i ! j = 0"
    using I by (rule conjunct2[THEN conjunct2, THEN conjunct2, THEN conjunct1])
  have UR': "\<forall>i<n. \<forall>j<n. i \<le> j \<longrightarrow> U ! i ! j = A ! i ! j - lu_sum L U i j i"
    using I by (rule conjunct2[THEN conjunct2, THEN conjunct2, THEN conjunct2, THEN conjunct1])
  have LR': "\<forall>j<n. \<forall>i<n. j < i \<longrightarrow> L ! i ! j = (A ! i ! j - lu_sum L U i j j) / U ! j ! j"
    using I by (rule conjunct2[THEN conjunct2, THEN conjunct2, THEN conjunct2, THEN conjunct2])
  have unit: "\<forall>i<n. L ! i ! i = 1 \<and> (\<forall>j<n. i < j \<longrightarrow> L ! i ! j = 0)"
    using L0' by auto
  have upper: "\<forall>i<n. \<forall>j<n. j < i \<longrightarrow> U ! i ! j = 0"
    using U0' by auto
  have recU: "\<forall>k<n. \<forall>j<n. k \<le> j \<longrightarrow>
          U ! k ! j = A ! k ! j - fsum (map (\<lambda>t. L ! k ! t * U ! t ! j) [0..<k])"
    using UR' by (simp add: lu_sum_fsum)
  have recL: "\<forall>k<n. \<forall>i<n. k < i \<longrightarrow>
          L ! i ! k = (A ! i ! k - fsum (map (\<lambda>t. L ! i ! t * U ! t ! k) [0..<k])) / U ! k ! k"
    using LR' by (simp add: lu_sum_fsum)
  have finLU: "\<forall>i<n. \<forall>j<n. finite_flt (L ! i ! j) \<and> finite_flt (U ! i ! j)"
    using lu_finite[OF assms(1,2) inv assms(4), of n] by auto
  have finL: "all_finite L" using finLU sq(1) by (simp add: all_finite_square_iff)
  have finU: "all_finite U" using finLU sq(2) by (simp add: all_finite_square_iff)
  have prod: "mat_mat L U = A"
    using sq assms(1) lu_product[OF assms(1,2) inv assms(4)] by (rule mat_mat_eqI)
  show ?thesis
    using sq unit upper recU recL finL finU prod by (intro conjI)
qed

lemma lu_factor_example:
  "lu_factor [[Fin 2, Fin 1], [Fin 4, Fin 5]]
     = ([[Fin 1, Fin 0], [Fin 2, Fin 1]], [[Fin 2, Fin 1], [Fin 0, Fin 3]])"
  by (simp add: direct_eval arr_eval Let_def numeral_2_eq_2)

theorem lu_decomposition_doolittle_factors_witness:
  "lu_factor [[Fin 2, Fin 1], [Fin 4, Fin 5]]
     = ([[Fin 1, Fin 0], [Fin 2, Fin 1]], [[Fin 2, Fin 1], [Fin 0, Fin 3]])
   \<and> mat_mat [[Fin 1, Fin 0], [Fin 2, Fin 1]] [[Fin 2, Fin 1], [Fin 0, Fin 3]]
     = [[Fin 2, Fin 1], [Fin 4, Fin 5]]"
  using lu_decomposition_doolittle_factors
    [of 2 "[[Fin 2, Fin 1], [Fin 4, Fin 5]]"
        "[[Fin 1, Fin 0], [Fin 2, Fin 1]]" "[[Fin 2, Fin 1], [Fin 0, Fin 3]]"]
    lu_factor_example
  by (simp add: square_def all_finite_def zero_flt_def)

lemma unchanged_below_refl: "unchanged_below N s s"
  by (simp add: unchanged_below_def)

lemma unchanged_below_trans:
  "unchanged_below N s s' \<Longrightarrow> unchanged_below N s' s'' \<Longrightarrow> unchanged_below N s s''"
  by (simp add: unchanged_below_def)

lemma unchanged_below_length: "unchanged_below N s s' \<Longrightarrow> N \<le> length s \<Longrightarrow> N \<le> length s'"
  by (simp add: unchanged_below_def)

lemma unchanged_put: "N \<le> r \<Longrightarrow> unchanged_below N s (put r a s)"
  by (simp add: unchanged_below_def put_def)

lemma unchanged_alloc:
  assumes "alloc a s = (r, s')" and "N \<le> length s"
  shows "unchanged_below N s s'" and "N \<le> r" and "N \<le> length s'"
  using assms by (auto simp: alloc_def unchanged_below_def nth_append)

lemma unchanged_copy:
  assumes "copy_arr q s = (r, s')" and "N \<le> length s"
  shows "unchanged_below N s s'" and "N \<le> r" and "N \<le> length s'"
  using assms unchanged_alloc[of "s ! q" s r s' N] by (simp_all add: copy_arr_def)

lemma unchanged_fold:
  assumes "\<And>x s. unchanged_below N s (f x s)"
  shows "unchanged_below N s (fold f xs s)"
proof (induction xs arbitrary: s)
  case Nil
  then show ?case by (simp add: unchanged_below_refl)
next
  case (Cons x xs)
  have "unchanged_below N s (f x s)" by (rule assms)
  moreover have "unchanged_below N (f x s) (fold f xs (f x s))" by (rule Cons)
  ultimately show ?case by (simp add: unchanged_below_trans)
qed

lemma unchanged_put2:
  "N \<le> r \<Longrightarrow> N \<le> q \<Longrightarrow> unchanged_below N s (put q c (put r a s))"
  by (simp add: unchanged_below_def put_def)

lemma unchanged_gauss_body_h:
  "N \<le> A \<Longrightarrow> N \<le> b \<Longrightarrow> unchanged_below N s (gauss_body_h n A b i j s)"
  by (simp add: gauss_body_h_def Let_def unchanged_put2 split: prod.splits)

lemma unchanged_back_step_h:
  "N \<le> b \<Longrightarrow> unchanged_below N s (back_step_h n A b k s)"
  by (simp add: back_step_h_def unchanged_put)

lemma unchanged_lu_step_h:
  "N \<le> l \<Longrightarrow> N \<le> u \<Longrightarrow> unchanged_below N s (lu_step_h A n l u k s)"
  by (simp add: lu_step_h_def Let_def unchanged_put2 split: prod.splits)

lemma pivot_gauss_h_frame:
  assumes "pivot_gauss_h A b s = (x, s')"
  shows "unchanged_below (length s) s s'"
proof -
  let ?N = "length s"
  obtain A1 s1 where c1: "copy_arr A s = (A1, s1)" by (cases "copy_arr A s")
  obtain b1 s2 where c2: "copy_arr b s1 = (b1, s2)" by (cases "copy_arr b s1")
  note u1 = unchanged_copy[OF c1, of ?N, simplified]
  note u2 = unchanged_copy[OF c2 u1(3)]
  define n where "n = length (get_mat s2 A1)"
  define s3 where "s3 = fold (\<lambda>i. fold (gauss_body_h n A1 b1 i) [i + 1..<n]) [0..<n - 1] s2"
  define s4 where "s4 = fold (back_step_h n A1 b1) (rev [0..<n]) s3"
  have r: "s' = s4"
    using assms c1 c2 by (auto simp: pivot_gauss_h_def Let_def n_def s3_def s4_def)
  have u3: "unchanged_below ?N s2 s3" unfolding s3_def
    by (intro unchanged_fold unchanged_gauss_body_h u1(2) u2(2))
  have u4: "unchanged_below ?N s3 s4" unfolding s4_def
    by (intro unchanged_fold unchanged_back_step_h u2(2))
  have "unchanged_below ?N s s2" using u1(1) u2(1) by (rule unchanged_below_trans)
  then have "unchanged_below ?N s s3" using u3 by (rule unchanged_below_trans)
  then have "unchanged_below ?N s s4" using u4 by (rule unchanged_below_trans)
  then show ?thesis by (simp only: r)
qed


lemma lu_decomposition_doolittle_h_frame:
  assumes "lu_decomposition_doolittle_h A b s = (x, s')"
  shows "unchanged_below (length s) s s'"
proof -
  let ?N = "length s"
  obtain A1 s1 where c1: "copy_arr A s = (A1, s1)" by (cases "copy_arr A s")
  obtain b1 s2 where c2: "copy_arr b s1 = (b1, s2)" by (cases "copy_arr b s1")
  note u1 = unchanged_copy[OF c1, of ?N, simplified]
  note u2 = unchanged_copy[OF c2 u1(3)]
  define n where "n = length (get_mat s2 A1)"
  obtain l s3 where c3: "alloc (Mat (eye n)) s2 = (l, s3)" by (cases "alloc (Mat (eye n)) s2")
  obtain u s4 where c4: "alloc (Mat (zeros2 n n)) s3 = (u, s4)" by (cases "alloc (Mat (zeros2 n n)) s3")
  note u3 = unchanged_alloc[OF c3 u2(3)]
  note u4 = unchanged_alloc[OF c4 u3(3)]
  define s5 where "s5 = fold (lu_step_h A1 n l u) [0..<n] s4"
  have u5: "unchanged_below ?N s4 s5" unfolding s5_def
    by (intro unchanged_fold unchanged_lu_step_h u3(2) u4(2))
  have l5: "?N \<le> length s5" using u5 u4(3) by (rule unchanged_below_length)
  obtain y s6 where c6: "alloc (Vec (zeros n)) s5 = (y, s6)" by (cases "alloc (Vec (zeros n)) s5")
  note u6 = unchanged_alloc[OF c6 l5]
  define s7 where "s7 = put y (Vec (forward_sub (get_mat s6 l) (get_vec s6 b1) n)) s6"
  have u7: "unchanged_below ?N s6 s7" unfolding s7_def using u6(2) by (rule unchanged_put)
  have l7: "?N \<le> length s7" using u7 u6(3) by (rule unchanged_below_length)
  obtain x1 s8 where c8: "alloc (Vec (zeros n)) s7 = (x1, s8)" by (cases "alloc (Vec (zeros n)) s7")
  note u8 = unchanged_alloc[OF c8 l7]
  define s9 where "s9 = put x1 (Vec (backward_sub (get_mat s8 u) (get_vec s8 y) n)) s8"
  have u9: "unchanged_below ?N s8 s9" unfolding s9_def using u8(2) by (rule unchanged_put)
  have r: "s' = s9"
    using assms c1 c2 c3 c4 c6 c8
    by (auto simp: lu_decomposition_doolittle_h_def Let_def n_def s5_def s7_def s9_def)
  have "unchanged_below ?N s s2" using u1(1) u2(1) by (rule unchanged_below_trans)
  then have "unchanged_below ?N s s3" using u3(1) by (rule unchanged_below_trans)
  then have "unchanged_below ?N s s4" using u4(1) by (rule unchanged_below_trans)
  then have "unchanged_below ?N s s5" using u5 by (rule unchanged_below_trans)
  then have "unchanged_below ?N s s6" using u6(1) by (rule unchanged_below_trans)
  then have "unchanged_below ?N s s7" using u7 by (rule unchanged_below_trans)
  then have "unchanged_below ?N s s8" using u8(1) by (rule unchanged_below_trans)
  then have "unchanged_below ?N s s9" using u9 by (rule unchanged_below_trans)
  then show ?thesis by (simp only: r)
qed


lemmas jacobi_loop_h_induct =
  jacobi_loop_h.raw_induct [where xa = "(((((A, b), n), x), cnt), s)" for A b n x cnt s, unfolded prod.case]

lemma jacobi_loop_h_frame:
  assumes "jacobi_loop_h A b n x cnt s = Some res"
  shows "N \<le> x \<longrightarrow> N \<le> length s \<longrightarrow> unchanged_below N s (snd res)"
proof (rule jacobi_loop_h_induct
    [where P = "\<lambda>A b n x cnt s res. N \<le> x \<longrightarrow> N \<le> length s \<longrightarrow> unchanged_below N s (snd res)",
     OF _ assms])
  fix loop A b n x cnt s res
  assume IH: "\<And>A b n x cnt s res. loop A b n x cnt s = Some res \<Longrightarrow>
               N \<le> x \<longrightarrow> N \<le> length s \<longrightarrow> unchanged_below N s (snd res)"
    and eq: "(let (y, s) = copy_arr x s;
              s = put x (Vec (jacobi_sweep (get_mat s A) (get_vec s b) n (get_vec s y) (get_vec s x))) s;
              cnt = cnt + 1
          in if norm2 (vsub (get_vec s x) (get_vec s y)) \<le> eps then Some ((x, cnt), s)
             else loop A b n x cnt s) = Some res"
  show "N \<le> x \<longrightarrow> N \<le> length s \<longrightarrow> unchanged_below N s (snd res)"
  proof (intro impI)
    assume Nx: "N \<le> x" and Ns: "N \<le> length s"
    obtain y s1 where c: "copy_arr x s = (y, s1)" by (cases "copy_arr x s")
    note u1 = unchanged_copy[OF c Ns]
    define s2 where "s2 = put x (Vec (jacobi_sweep (get_mat s1 A) (get_vec s1 b) n (get_vec s1 y) (get_vec s1 x))) s1"
    have u2: "unchanged_below N s1 s2" unfolding s2_def using Nx by (rule unchanged_put)
    have u12: "unchanged_below N s s2" using u1(1) u2 by (rule unchanged_below_trans)
    have l2: "N \<le> length s2" using u2 u1(3) by (rule unchanged_below_length)
    show "unchanged_below N s (snd res)"
    proof (cases "norm2 (vsub (get_vec s2 x) (get_vec s2 y)) \<le> eps")
      case True
      then have "res = ((x, cnt + 1), s2)" using eq c by (simp add: Let_def s2_def)
      then show ?thesis using u12 by simp
    next
      case False
      then have "loop A b n x (cnt + 1) s2 = Some res" using eq c by (simp add: Let_def s2_def)
      from IH[OF this] Nx l2 have "unchanged_below N s2 (snd res)" by simp
      with u12 show ?thesis by (rule unchanged_below_trans)
    qed
  qed
qed

lemmas gauss_seidel_loop_h_induct =
  gauss_seidel_loop_h.raw_induct [where xa = "(((((A, b), n), x), cnt), s)" for A b n x cnt s, unfolded prod.case]

lemma gauss_seidel_loop_h_frame:
  assumes "gauss_seidel_loop_h A b n x cnt s = Some res"
  shows "N \<le> x \<longrightarrow> N \<le> length s \<longrightarrow> unchanged_below N s (snd res)"
proof (rule gauss_seidel_loop_h_induct
    [where P = "\<lambda>A b n x cnt s res. N \<le> x \<longrightarrow> N \<le> length s \<longrightarrow> unchanged_below N s (snd res)",
     OF _ assms])
  fix loop A b n x cnt s res
  assume IH: "\<And>A b n x cnt s res. loop A b n x cnt s = Some res \<Longrightarrow>
               N \<le> x \<longrightarrow> N \<le> length s \<longrightarrow> unchanged_below N s (snd res)"
    and eq: "(let (y, s) = copy_arr x s;
              s = put x (Vec (gauss_seidel_sweep (get_mat s A) (get_vec s b) n (get_vec s x))) s;
              cnt = cnt + 1
          in if norm2 (vsub (get_vec s x) (get_vec s y)) \<le> eps then Some ((x, cnt), s)
             else loop A b n x cnt s) = Some res"
  show "N \<le> x \<longrightarrow> N \<le> length s \<longrightarrow> unchanged_below N s (snd res)"
  proof (intro impI)
    assume Nx: "N \<le> x" and Ns: "N \<le> length s"
    obtain y s1 where c: "copy_arr x s = (y, s1)" by (cases "copy_arr x s")
    note u1 = unchanged_copy[OF c Ns]
    define s2 where "s2 = put x (Vec (gauss_seidel_sweep (get_mat s1 A) (get_vec s1 b) n (get_vec s1 x))) s1"
    have u2: "unchanged_below N s1 s2" unfolding s2_def using Nx by (rule unchanged_put)
    have u12: "unchanged_below N s s2" using u1(1) u2 by (rule unchanged_below_trans)
    have l2: "N \<le> length s2" using u2 u1(3) by (rule unchanged_below_length)
    show "unchanged_below N s (snd res)"
    proof (cases "norm2 (vsub (get_vec s2 x) (get_vec s2 y)) \<le> eps")
      case True
      then have "res = ((x, cnt + 1), s2)" using eq c by (simp add: Let_def s2_def)
      then show ?thesis using u12 by simp
    next
      case False
      then have "loop A b n x (cnt + 1) s2 = Some res" using eq c by (simp add: Let_def s2_def)
      from IH[OF this] Nx l2 have "unchanged_below N s2 (snd res)" by simp
      with u12 show ?thesis by (rule unchanged_below_trans)
    qed
  qed
qed

lemmas sor_loop_h_induct =
  sor_loop_h.raw_induct [where xa = "((((((A, b), w), n), x), cnt), s)" for A b w n x cnt s, unfolded prod.case]

lemma sor_loop_h_frame:
  assumes "sor_loop_h A b w n x cnt s = Some res"
  shows "N \<le> x \<longrightarrow> N \<le> length s \<longrightarrow> unchanged_below N s (snd res)"
proof (rule sor_loop_h_induct
    [where P = "\<lambda>A b w n x cnt s res. N \<le> x \<longrightarrow> N \<le> length s \<longrightarrow> unchanged_below N s (snd res)",
     OF _ assms])
  fix loop A b w n x cnt s res
  assume IH: "\<And>A b w n x cnt s res. loop A b w n x cnt s = Some res \<Longrightarrow>
               N \<le> x \<longrightarrow> N \<le> length s \<longrightarrow> unchanged_below N s (snd res)"
    and eq: "(let (y, s) = copy_arr x s;
              s = put x (Vec (sor_sweep (get_mat s A) (get_vec s b) w n (get_vec s x))) s;
              cnt = cnt + 1
          in if norm2 (vsub (get_vec s x) (get_vec s y)) \<le> eps then Some ((x, cnt), s)
             else loop A b w n x cnt s) = Some res"
  show "N \<le> x \<longrightarrow> N \<le> length s \<longrightarrow> unchanged_below N s (snd res)"
  proof (intro impI)
    assume Nx: "N \<le> x" and Ns: "N \<le> length s"
    obtain y s1 where c: "copy_arr x s = (y, s1)" by (cases "copy_arr x s")
    note u1 = unchanged_copy[OF c Ns]
    define s2 where "s2 = put x (Vec (sor_sweep (get_mat s1 A) (get_vec s1 b) w n (get_vec s1 x))) s1"
    have u2: "unchanged_below N s1 s2" unfolding s2_def using Nx by (rule unchanged_put)
    have u12: "unchanged_below N s s2" using u1(1) u2 by (rule unchanged_below_trans)
    have l2: "N \<le> length s2" using u2 u1(3) by (rule unchanged_below_length)
    show "unchanged_below N s (snd res)"
    proof (cases "norm2 (vsub (get_vec s2 x) (get_vec s2 y)) \<le> eps")
      case True
      then have "res = ((x, cnt + 1), s2)" using eq c by (simp add: Let_def s2_def)
      then show ?thesis using u12 by simp
    next
      case False
      then have "loop A b w n x (cnt + 1) s2 = Some res" using eq c by (simp add: Let_def s2_def)
      from IH[OF this] Nx l2 have "unchanged_below N s2 (snd res)" by simp
      with u12 show ?thesis by (rule unchanged_below_trans)
    qed
  qed
qed


lemmas cg_loop_h_induct =
  cg_loop_h.raw_induct [where xa = "(((((A, x), r), p), cnt), s)" for A x r p cnt s, unfolded prod.case]

lemma cg_loop_h_frame:
  assumes "cg_loop_h A x r p cnt s = Some res"
  shows "N \<le> length s \<longrightarrow> unchanged_below N s (snd res)"
proof (rule cg_loop_h_induct
    [where P = "\<lambda>A x r p cnt s res. N \<le> length s \<longrightarrow> unchanged_below N s (snd res)",
     OF _ assms])
  fix loop A x r p cnt s res
  assume IH: "\<And>A x r p cnt s res. loop A x r p cnt s = Some res \<Longrightarrow>
               N \<le> length s \<longrightarrow> unchanged_below N s (snd res)"
    and eq: "(let y = x;
              (x', r', p') = cg_sweep (get_mat s A) (get_vec s x, get_vec s r, get_vec s p);
              (x, s) = alloc (Vec x') s;
              (r, s) = alloc (Vec r') s;
              (p, s) = alloc (Vec p') s;
              cnt = cnt + 1
          in if norm2 (vsub (get_vec s x) (get_vec s y)) \<le> eps then Some ((x, cnt), s)
             else loop A x r p cnt s) = Some res"
  show "N \<le> length s \<longrightarrow> unchanged_below N s (snd res)"
  proof (intro impI)
    assume Ns: "N \<le> length s"
    obtain x' r' p' where sw: "cg_sweep (get_mat s A) (get_vec s x, get_vec s r, get_vec s p) = (x', r', p')"
      by (cases "cg_sweep (get_mat s A) (get_vec s x, get_vec s r, get_vec s p)")
    obtain x1 s1 where c1: "alloc (Vec x') s = (x1, s1)" by (cases "alloc (Vec x') s")
    obtain r1 s2 where c2: "alloc (Vec r') s1 = (r1, s2)" by (cases "alloc (Vec r') s1")
    obtain p1 s3 where c3: "alloc (Vec p') s2 = (p1, s3)" by (cases "alloc (Vec p') s2")
    note u1 = unchanged_alloc[OF c1 Ns]
    note u2 = unchanged_alloc[OF c2 u1(3)]
    note u3 = unchanged_alloc[OF c3 u2(3)]
    have "unchanged_below N s s2" using u1(1) u2(1) by (rule unchanged_below_trans)
    then have u: "unchanged_below N s s3" using u3(1) by (rule unchanged_below_trans)
    show "unchanged_below N s (snd res)"
    proof (cases "norm2 (vsub (get_vec s3 x1) (get_vec s3 x)) \<le> eps")
      case True
      then have "res = ((x1, cnt + 1), s3)" using eq sw c1 c2 c3 by (simp add: Let_def)
      then show ?thesis using u by simp
    next
      case False
      then have "loop A x1 r1 p1 (cnt + 1) s3 = Some res" using eq sw c1 c2 c3 by (simp add: Let_def)
      from IH[OF this] u3(3) have "unchanged_below N s3 (snd res)" by simp
      with u show ?thesis by (rule unchanged_below_trans)
    qed
  qed
qed

lemma after_check_h_frame:
  assumes "after_check_h v s run = Some (res, s')"
    and "\<And>r s''. run s = Some (r, s'') \<Longrightarrow> unchanged_below N s s''"
  shows "unchanged_below N s s'"
proof (cases v)
  case (Inl e)
  then show ?thesis using assms(1) by (simp add: after_check_h_def unchanged_below_refl)
next
  case (Inr p)
  obtain ok out where p: "p = (ok, out)" by (cases p)
  show ?thesis
  proof (cases ok)
    case False
    then show ?thesis using assms(1) Inr p by (simp add: after_check_h_def unchanged_below_refl)
  next
    case True
    then obtain r s'' where "run s = Some (r, s'')" "s' = s''"
      using assms(1) Inr p by (auto simp: after_check_h_def)
    then show ?thesis using assms(2) by simp
  qed
qed

lemma jacobi_h_frame:
  assumes "jacobi_h linv eigvals A b x0 s = Some (res, s')"
  shows "unchanged_below (length s) s s'"
proof -
  let ?N = "length s"
  obtain A1 s1 where c1: "copy_arr A s = (A1, s1)" by (cases "copy_arr A s")
  obtain b1 s2 where c2: "copy_arr b s1 = (b1, s2)" by (cases "copy_arr b s1")
  note u1 = unchanged_copy[OF c1, of ?N, simplified]
  note u2 = unchanged_copy[OF c2 u1(3)]
  have u12: "unchanged_below ?N s s2" using u1(1) u2(1) by (rule unchanged_below_trans)
  let ?run = "\<lambda>s. let n = length (get_mat s A1); (x, s) = copy_arr x0 s in jacobi_loop_h A1 b1 n x 0 s"
  have ac: "after_check_h (check_jacobi_convergency linv eigvals (get_mat s2 A1)) s2 ?run = Some (res, s')"
    using assms c1 c2 by (simp add: jacobi_h_def)
  have "unchanged_below ?N s2 s'"
  proof (rule after_check_h_frame[OF ac])
    fix r s'' assume run: "?run s2 = Some (r, s'')"
    obtain x s3 where c3: "copy_arr x0 s2 = (x, s3)" by (cases "copy_arr x0 s2")
    note u3 = unchanged_copy[OF c3 u2(3)]
    have "jacobi_loop_h A1 b1 (length (get_mat s2 A1)) x 0 s3 = Some (r, s'')"
      using run c3 by (simp add: Let_def)
    from jacobi_loop_h_frame[OF this, of ?N] u3(2,3) have "unchanged_below ?N s3 s''" by simp
    with u3(1) show "unchanged_below ?N s2 s''" by (rule unchanged_below_trans)
  qed
  with u12 show ?thesis by (rule unchanged_below_trans)
qed

lemma gauss_seidel_h_frame:
  assumes "gauss_seidel_h linv eigvals A b x0 s = Some (res, s')"
  shows "unchanged_below (length s) s s'"
proof -
  let ?N = "length s"
  obtain A1 s1 where c1: "copy_arr A s = (A1, s1)" by (cases "copy_arr A s")
  obtain b1 s2 where c2: "copy_arr b s1 = (b1, s2)" by (cases "copy_arr b s1")
  note u1 = unchanged_copy[OF c1, of ?N, simplified]
  note u2 = unchanged_copy[OF c2 u1(3)]
  have u12: "unchanged_below ?N s s2" using u1(1) u2(1) by (rule unchanged_below_trans)
  let ?run = "\<lambda>s. let n = length (get_mat s A1); (x, s) = copy_arr x0 s in gauss_seidel_loop_h A1 b1 n x 0 s"
  have ac: "after_check_h (check_gauss_seidel_convergency linv eigvals (get_mat s2 A1)) s2 ?run = Some (res, s')"
    using assms c1 c2 by (simp add: gauss_seidel_h_def)
  have "unchanged_below ?N s2 s'"
  proof (rule after_check_h_frame[OF ac])
    fix r s'' assume run: "?run s2 = Some (r, s'')"
    obtain x s3 where c3: "copy_arr x0 s2 = (x, s3)" by (cases "copy_arr x0 s2")
    note u3 = unchanged_copy[OF c3 u2(3)]
    have "gauss_seidel_loop_h A1 b1 (length (get_mat s2 A1)) x 0 s3 = Some (r, s'')"
      using run c3 by (simp add: Let_def)
    from gauss_seidel_loop_h_frame[OF this, of ?N] u3(2,3) have "unchanged_below ?N s3 s''" by simp
    with u3(1) show "unchanged_below ?N s2 s''" by (rule unchanged_below_trans)
  qed
  with u12 show ?thesis by (rule unchanged_below_trans)
qed

lemma successive_over_relaxation_h_frame:
  assumes "successive_over_relaxation_h linv eigvals A b w x0 s = Some (res, s')"
  shows "unchanged_below (length s) s s'"
proof -
  let ?N = "length s"
  obtain A1 s1 where c1: "copy_arr A s = (A1, s1)" by (cases "copy_arr A s")
  obtain b1 s2 where c2: "copy_arr b s1 = (b1, s2)" by (cases "copy_arr b s1")
  note u1 = unchanged_copy[OF c1, of ?N, simplified]
  note u2 = unchanged_copy[OF c2 u1(3)]
  have u12: "unchanged_below ?N s s2" using u1(1) u2(1) by (rule unchanged_below_trans)
  let ?run = "\<lambda>s. let n = length (get_mat s A1); (x, s) = copy_arr x0 s in sor_loop_h A1 b1 w n x 0 s"
  have ac: "after_check_h (check_successive_over_relaxation_convergency linv eigvals (get_mat s2 A1) w) s2 ?run
            = Some (res, s')"
    using assms c1 c2 by (simp add: successive_over_relaxation_h_def)
  have "unchanged_below ?N s2 s'"
  proof (rule after_check_h_frame[OF ac])
    fix r s'' assume run: "?run s2 = Some (r, s'')"
    obtain x s3 where c3: "copy_arr x0 s2 = (x, s3)" by (cases "copy_arr x0 s2")
    note u3 = unchanged_copy[OF c3 u2(3)]
    have "sor_loop_h A1 b1 w (length (get_mat s2 A1)) x 0 s3 = Some (r, s'')"
      using run c3 by (simp add: Let_def)
    from sor_loop_h_frame[OF this, of ?N] u3(2,3) have "unchanged_below ?N s3 s''" by simp
    with u3(1) show "unchanged_below ?N s2 s''" by (rule unchanged_below_trans)
  qed
  with u12 show ?thesis by (rule unchanged_below_trans)
qed

lemma conjugate_gradient_h_frame:
  assumes "conjugate_gradient_h eigvals A b x0 s = Some (res, s')"
  shows "unchanged_below (length s) s s'"
proof -
  let ?N = "length s"
  obtain A1 s1 where c1: "copy_arr A s = (A1, s1)" by (cases "copy_arr A s")
  obtain b1 s2 where c2: "copy_arr b s1 = (b1, s2)" by (cases "copy_arr b s1")
  note u1 = unchanged_copy[OF c1, of ?N, simplified]
  note u2 = unchanged_copy[OF c2 u1(3)]
  have u12: "unchanged_below ?N s s2" using u1(1) u2(1) by (rule unchanged_below_trans)
  let ?run = "\<lambda>s. let (x, s) = copy_arr x0 s;
                     (r, s) = alloc (Vec (vsub (get_vec s b1) (mat_vec (get_mat s A1) (get_vec s x)))) s;
                     p = r
                 in cg_loop_h A1 x r p 1 s"
  have ac: "after_check_h (check_symmetric_and_positive_definite_matrix eigvals (get_mat s2 A1)) s2 ?run
            = Some (res, s')"
    using assms c1 c2 by (simp add: conjugate_gradient_h_def)
  have "unchanged_below ?N s2 s'"
  proof (rule after_check_h_frame[OF ac])
    fix r s'' assume run: "?run s2 = Some (r, s'')"
    obtain x s3 where c3: "copy_arr x0 s2 = (x, s3)" by (cases "copy_arr x0 s2")
    note u3 = unchanged_copy[OF c3 u2(3)]
    obtain r0 s4 where c4: "alloc (Vec (vsub (get_vec s3 b1) (mat_vec (get_mat s3 A1) (get_vec s3 x)))) s3 = (r0, s4)"
      by (cases "alloc (Vec (vsub (get_vec s3 b1) (mat_vec (get_mat s3 A1) (get_vec s3 x)))) s3")
    note u4 = unchanged_alloc[OF c4 u3(3)]
    have "cg_loop_h A1 x r0 r0 1 s4 = Some (r, s'')"
      using run c3 c4 by (simp add: Let_def)
    from cg_loop_h_frame[OF this, of ?N] u4(3) have "unchanged_below ?N s4 s''" by simp
    with u4(1) have "unchanged_below ?N s3 s''" by (rule unchanged_below_trans)
    with u3(1) show "unchanged_below ?N s2 s''" by (rule unchanged_below_trans)
  qed
  with u12 show ?thesis by (rule unchanged_below_trans)
qed


lemmas store_eval =
  store1_def copy_arr_def alloc_def put_def get_mat_def get_vec_def after_check_h_def
  gauss_body_h_def back_step_h_def lu_step_h_def nth_append

lemma pivot_gauss_h_run1:
  "pivot_gauss_h 0 1 (store1 0) = (4, store1 0 @ [Mat [[Fin 1]], Vec [Fin 1]])"
  by (simp add: pivot_gauss_h_def store_eval direct_eval arr_eval flt_cmp Let_def)

lemma lu_decomposition_doolittle_h_run1:
  "lu_decomposition_doolittle_h 0 1 (store1 0)
     = (8, store1 0 @ [Mat [[Fin 1]], Vec [Fin 1], Mat [[Fin 1]], Mat [[Fin 1]], Vec [Fin 1], Vec [Fin 1]])"
  by (simp add: lu_decomposition_doolittle_h_def store_eval direct_eval arr_eval flt_cmp Let_def)


lemma jacobi_h_run1:
  "\<exists>res s'. jacobi_h linv1 eigvals1 0 1 2 (store1 0) = Some (res, s')"
  apply (simp add: jacobi_h_def store_eval check_eval linv1_def eigvals1_def arr_eval flt_cmp Let_def)
  apply (subst jacobi_loop_h.simps)
  apply (simp add: store_eval sweep_eval arr_eval Let_def)
  apply (subst jacobi_loop_h.simps)
  apply (simp add: store_eval sweep_eval arr_eval Let_def)
  done

lemma gauss_seidel_h_run1:
  "\<exists>res s'. gauss_seidel_h linv1 eigvals1 0 1 2 (store1 0) = Some (res, s')"
  apply (simp add: gauss_seidel_h_def store_eval check_eval linv1_def eigvals1_def arr_eval flt_cmp Let_def)
  apply (subst gauss_seidel_loop_h.simps)
  apply (simp add: store_eval sweep_eval arr_eval Let_def)
  apply (subst gauss_seidel_loop_h.simps)
  apply (simp add: store_eval sweep_eval arr_eval Let_def)
  done

lemma sor_h_run1:
  "\<exists>res s'. successive_over_relaxation_h linv1 eigvals1 0 1 (Fin (3 / 2)) 2 (store1 1) = Some (res, s')"
  apply (simp add: successive_over_relaxation_h_def store_eval check_eval linv1_def eigvals1_def
      arr_eval flt_cmp Let_def)
  apply (subst sor_loop_h.simps)
  apply (simp add: store_eval sweep_eval arr_eval Let_def)
  done

lemma cg_h_run1:
  "\<exists>res s'. conjugate_gradient_h eigvals1 0 1 2 (store1 (1 - 1 / 10 ^ 7)) = Some (res, s')"
  apply (simp add: conjugate_gradient_h_def store_eval check_eval linv1_def eigvals1_def
      arr_eval flt_cmp Let_def)
  apply (subst cg_loop_h.simps)
  apply (simp add: store_eval sweep_eval arr_eval Let_def)
  done

section \<open>The solvers on the store compute what the solvers on values compute\<close>

lemma gauss_body_h_embed:
  "gauss_body_h n (length s) (Suc (length s)) i j (s @ [Mat A, Vec b])
     = (case gauss_body n i j (A, b) of (A', b') \<Rightarrow> s @ [Mat A', Vec b'])"
  by (simp add: gauss_body_h_def get_mat_def get_vec_def put_def nth_append list_update_append
      split: prod.splits)

lemma fold_gauss_body_h_embed:
  "fold (gauss_body_h n (length s) (Suc (length s)) i) js (s @ [Mat A, Vec b])
     = (case fold (gauss_body n i) js (A, b) of (A', b') \<Rightarrow> s @ [Mat A', Vec b'])"
proof (induction js arbitrary: A b)
  case Nil
  then show ?case by simp
next
  case (Cons j js)
  obtain A1 b1 where g: "gauss_body n i j (A, b) = (A1, b1)" by (cases "gauss_body n i j (A, b)")
  show ?case using Cons[of A1 b1] g by (simp add: gauss_body_h_embed)
qed

lemma forward_elimination_h_embed:
  "fold (\<lambda>i. fold (gauss_body_h n (length s) (Suc (length s)) i) [i + 1..<n]) is (s @ [Mat A, Vec b])
     = (case fold (\<lambda>i. fold (gauss_body n i) [i + 1..<n]) is (A, b) of (A', b') \<Rightarrow> s @ [Mat A', Vec b'])"
proof (induction "is" arbitrary: A b)
  case Nil
  then show ?case by simp
next
  case (Cons i "is")
  obtain A1 b1 where g: "fold (gauss_body n i) [i + 1..<n] (A, b) = (A1, b1)"
    by (cases "fold (gauss_body n i) [i + 1..<n] (A, b)")
  show ?case using Cons[of A1 b1] g fold_gauss_body_h_embed[of n s i "[i + 1..<n]" A b] by simp
qed

lemma back_substitution_h_embed:
  "fold (back_step_h n (length s) (Suc (length s))) ks (s @ [Mat A, Vec b])
     = s @ [Mat A, Vec (fold (back_step n A) ks b)]"
proof (induction ks arbitrary: b)
  case Nil
  then show ?case by simp
next
  case (Cons k ks)
  have "back_step_h n (length s) (Suc (length s)) k (s @ [Mat A, Vec b])
        = s @ [Mat A, Vec (back_step n A k b)]"
    by (simp add: back_step_h_def get_mat_def get_vec_def put_def nth_append list_update_append)
  then show ?case using Cons by simp
qed

lemma pivot_gauss_h_value:
  assumes "s ! A = Mat Am" and "s ! b = Vec bv" and "A < length s" and "b < length s"
  shows "\<exists>A'. pivot_gauss_h A b s = (Suc (length s), s @ [Mat A', Vec (pivot_gauss Am bv)])"
proof -
  have c1: "copy_arr A s = (length s, s @ [Mat Am])" using assms(1) by (simp add: copy_arr_def alloc_def)
  have c2: "copy_arr b (s @ [Mat Am]) = (Suc (length s), s @ [Mat Am, Vec bv])"
    using assms(2,4) by (simp add: copy_arr_def alloc_def nth_append)
  have n: "length (get_mat (s @ [Mat Am, Vec bv]) (length s)) = length Am"
    by (simp add: get_mat_def nth_append)
  obtain A' b' where f: "forward_elimination (length Am) (Am, bv) = (A', b')"
    by (cases "forward_elimination (length Am) (Am, bv)")
  let ?n = "length Am"
  have e1: "fold (\<lambda>i. fold (gauss_body_h ?n (length s) (Suc (length s)) i) [i + 1..<?n]) [0..<?n - 1]
              (s @ [Mat Am, Vec bv]) = s @ [Mat A', Vec b']"
    using forward_elimination_h_embed[of ?n s "[0..<?n - 1]" Am bv] f
    by (simp add: forward_elimination_def)
  have e2: "fold (back_step_h ?n (length s) (Suc (length s))) (rev [0..<?n]) (s @ [Mat A', Vec b'])
            = s @ [Mat A', Vec (back_substitution ?n A' b')]"
    by (simp only: back_substitution_h_embed back_substitution_def)
  have "pivot_gauss_h A b s
        = (Suc (length s), s @ [Mat A', Vec (back_substitution (length Am) A' b')])"
    unfolding pivot_gauss_h_def c1 c2 Let_def prod.case n e1 e2 ..
  then show ?thesis using f by (auto simp: pivot_gauss_def Let_def)
qed


lemma lu_step_h_embed:
  "lu_step_h (length s) n (Suc (Suc (length s))) (Suc (Suc (Suc (length s)))) k
      (s @ [Mat Am, Vec bv, Mat l, Mat u])
     = (case lu_step Am n k (l, u) of (l', u') \<Rightarrow> s @ [Mat Am, Vec bv, Mat l', Mat u'])"
  by (simp add: lu_step_h_def get_mat_def put_def nth_append list_update_append
      split: prod.splits)

lemma fold_lu_step_h_embed:
  "fold (lu_step_h (length s) n (Suc (Suc (length s))) (Suc (Suc (Suc (length s))))) ks
      (s @ [Mat Am, Vec bv, Mat l, Mat u])
     = (case fold (lu_step Am n) ks (l, u) of (l', u') \<Rightarrow> s @ [Mat Am, Vec bv, Mat l', Mat u'])"
proof (induction ks arbitrary: l u)
  case Nil
  then show ?case by simp
next
  case (Cons k ks)
  obtain l1 u1 where g: "lu_step Am n k (l, u) = (l1, u1)" by (cases "lu_step Am n k (l, u)")
  show ?case using Cons[of l1 u1] g by (simp add: lu_step_h_embed)
qed

lemma lu_decomposition_doolittle_h_value:
  assumes "s ! A = Mat Am" and "s ! b = Vec bv" and "b < length s"
  shows "\<exists>L U y. lu_decomposition_doolittle_h A b s
           = (length s + 5,
              s @ [Mat Am, Vec bv, Mat L, Mat U, Vec y, Vec (lu_decomposition_doolittle Am bv)])"
proof -
  let ?n = "length Am"
  let ?N = "length s"
  have c1: "copy_arr A s = (?N, s @ [Mat Am])" using assms(1) by (simp add: copy_arr_def alloc_def)
  have c2: "copy_arr b (s @ [Mat Am]) = (Suc ?N, s @ [Mat Am, Vec bv])"
    using assms(2,3) by (simp add: copy_arr_def alloc_def nth_append)
  have n: "length (get_mat (s @ [Mat Am, Vec bv]) ?N) = ?n"
    by (simp add: get_mat_def nth_append)
  have c3: "alloc (Mat (eye ?n)) (s @ [Mat Am, Vec bv]) = (Suc (Suc ?N), s @ [Mat Am, Vec bv, Mat (eye ?n)])"
    by (simp add: alloc_def)
  have c4: "alloc (Mat (zeros2 ?n ?n)) (s @ [Mat Am, Vec bv, Mat (eye ?n)])
            = (Suc (Suc (Suc ?N)), s @ [Mat Am, Vec bv, Mat (eye ?n), Mat (zeros2 ?n ?n)])"
    by (simp add: alloc_def)
  obtain L U where f: "lu_factor Am = (L, U)" by (cases "lu_factor Am")
  have e5: "fold (lu_step_h ?N ?n (Suc (Suc ?N)) (Suc (Suc (Suc ?N)))) [0..<?n]
              (s @ [Mat Am, Vec bv, Mat (eye ?n), Mat (zeros2 ?n ?n)])
            = s @ [Mat Am, Vec bv, Mat L, Mat U]"
    using fold_lu_step_h_embed[of s ?n "[0..<?n]" Am bv "eye ?n" "zeros2 ?n ?n"] f
    by (simp add: lu_factor_def Let_def)
  let ?s5 = "s @ [Mat Am, Vec bv, Mat L, Mat U]"
  have c6: "alloc (Vec (zeros ?n)) ?s5 = (?N + 4, ?s5 @ [Vec (zeros ?n)])"
    by (simp add: alloc_def)
  let ?y = "forward_sub L bv ?n"
  have e7: "put (?N + 4) (Vec (forward_sub (get_mat (?s5 @ [Vec (zeros ?n)]) (Suc (Suc ?N)))
                                (get_vec (?s5 @ [Vec (zeros ?n)]) (Suc ?N)) ?n)) (?s5 @ [Vec (zeros ?n)])
            = ?s5 @ [Vec ?y]"
    by (simp add: put_def get_mat_def get_vec_def nth_append list_update_append)
  have c8: "alloc (Vec (zeros ?n)) (?s5 @ [Vec ?y]) = (?N + 5, ?s5 @ [Vec ?y, Vec (zeros ?n)])"
    by (simp add: alloc_def)
  have e9: "put (?N + 5) (Vec (backward_sub (get_mat (?s5 @ [Vec ?y, Vec (zeros ?n)]) (Suc (Suc (Suc ?N))))
                                (get_vec (?s5 @ [Vec ?y, Vec (zeros ?n)]) (?N + 4)) ?n))
              (?s5 @ [Vec ?y, Vec (zeros ?n)])
            = ?s5 @ [Vec ?y, Vec (backward_sub U ?y ?n)]"
    by (simp add: put_def get_mat_def get_vec_def nth_append list_update_append)
  have "lu_decomposition_doolittle_h A b s = (?N + 5, ?s5 @ [Vec ?y, Vec (backward_sub U ?y ?n)])"
    unfolding lu_decomposition_doolittle_h_def c1 c2 Let_def prod.case n c3 c4 e5 c6 e7 c8 e9 ..
  moreover have "lu_decomposition_doolittle Am bv = backward_sub U ?y ?n"
    using f by (simp add: lu_decomposition_doolittle_def Let_def)
  ultimately show ?thesis by auto
qed


lemma jacobi_loop_h_body:
  fixes n :: nat
  assumes "bound_to s A Am b bv x xv"
  defines "xv' \<equiv> jacobi_sweep Am bv n xv xv"
  defines "s2 \<equiv> (s @ [Vec xv])[x := Vec xv']"
  shows "(let (y, s) = copy_arr x s;
              s = put x (Vec (jacobi_sweep (get_mat s A) (get_vec s b) n (get_vec s y) (get_vec s x))) s;
              cnt = cnt + 1
          in if norm2 (vsub (get_vec s x) (get_vec s y)) \<le> eps then Some ((x, cnt), s)
             else F A b n x cnt s)
         = (if norm2 (vsub xv' xv) \<le> eps then Some ((x, cnt + 1), s2)
            else F A b n x (cnt + 1) s2)"
    and "bound_to s2 A Am b bv x xv'"
proof -
  have c: "copy_arr x s = (length s, s @ [Vec xv])"
    using assms(1) by (simp add: bound_to_def copy_arr_def alloc_def)
  have g: "get_mat (s @ [Vec xv]) A = Am" "get_vec (s @ [Vec xv]) b = bv"
    "get_vec (s @ [Vec xv]) x = xv" "get_vec (s @ [Vec xv]) (length s) = xv"
    using assms(1) by (simp_all add: bound_to_def get_mat_def get_vec_def nth_append)
  have g2: "get_vec s2 x = xv'" "get_vec s2 (length s) = xv"
    using assms(1) by (simp_all add: bound_to_def s2_def get_vec_def nth_append)
  show "(let (y, s) = copy_arr x s;
              s = put x (Vec (jacobi_sweep (get_mat s A) (get_vec s b) n (get_vec s y) (get_vec s x))) s;
              cnt = cnt + 1
          in if norm2 (vsub (get_vec s x) (get_vec s y)) \<le> eps then Some ((x, cnt), s)
             else F A b n x cnt s)
         = (if norm2 (vsub xv' xv) \<le> eps then Some ((x, cnt + 1), s2)
            else F A b n x (cnt + 1) s2)"
    unfolding c prod.case Let_def g put_def xv'_def[symmetric] s2_def[symmetric] g2 ..
  show "bound_to s2 A Am b bv x xv'"
    using assms(1) by (auto simp: bound_to_def s2_def nth_append)
qed

lemma jacobi_loop_h_sound:
  assumes "jacobi_loop_h A b n x cnt s = Some res"
  shows "\<forall>xv. bound_to s A Am b bv x xv \<longrightarrow>
           jacobi_loop Am bv n xv cnt = Some (get_vec (snd res) (fst (fst res)), snd (fst res))"
proof (rule jacobi_loop_h_induct
    [where P = "\<lambda>A b n x cnt s res. \<forall>xv. bound_to s A Am b bv x xv \<longrightarrow>
           jacobi_loop Am bv n xv cnt = Some (get_vec (snd res) (fst (fst res)), snd (fst res))",
     OF _ assms])
  fix loop A b n x cnt s res
  assume IH: "\<And>A b n x cnt s res. loop A b n x cnt s = Some res \<Longrightarrow>
      \<forall>xv. bound_to s A Am b bv x xv \<longrightarrow>
           jacobi_loop Am bv n xv cnt = Some (get_vec (snd res) (fst (fst res)), snd (fst res))"
    and eq: "(let (y, s) = copy_arr x s;
              s = put x (Vec (jacobi_sweep (get_mat s A) (get_vec s b) n (get_vec s y) (get_vec s x))) s;
              cnt = cnt + 1
          in if norm2 (vsub (get_vec s x) (get_vec s y)) \<le> eps then Some ((x, cnt), s)
             else loop A b n x cnt s) = Some res"
  show "\<forall>xv. bound_to s A Am b bv x xv \<longrightarrow>
           jacobi_loop Am bv n xv cnt = Some (get_vec (snd res) (fst (fst res)), snd (fst res))"
  proof (intro allI impI)
    fix xv assume bd: "bound_to s A Am b bv x xv"
    define xv' where "xv' = jacobi_sweep Am bv n xv xv"
    define s2 where "s2 = (s @ [Vec xv])[x := Vec xv']"
    note body1 = jacobi_loop_h_body(1)[where F = loop and cnt = cnt and n = n, OF bd, folded xv'_def, folded s2_def]
      and body2 = jacobi_loop_h_body(2)[where n = n, OF bd, folded xv'_def, folded s2_def]
    have eq': "(if norm2 (vsub xv' xv) \<le> eps then Some ((x, cnt + 1), s2)
                else loop A b n x (cnt + 1) s2) = Some res"
      using eq unfolding body1 .
    have xs2: "get_vec s2 x = xv'"
      using body2 by (simp add: bound_to_def get_vec_def)
    have unf: "jacobi_loop Am bv n xv cnt
               = (if norm2 (vsub xv' xv) \<le> eps then Some (xv', cnt + 1)
                  else jacobi_loop Am bv n xv' (cnt + 1))"
      by (subst jacobi_loop.simps) (simp add: Let_def xv'_def)
    show "jacobi_loop Am bv n xv cnt = Some (get_vec (snd res) (fst (fst res)), snd (fst res))"
    proof (cases "norm2 (vsub xv' xv) \<le> eps")
      case True
      then have "res = ((x, cnt + 1), s2)" using eq' by simp
      then show ?thesis using True unf xs2 by simp
    next
      case False
      then have "loop A b n x (cnt + 1) s2 = Some res" using eq' by simp
      from IH[OF this] body2
      have "jacobi_loop Am bv n xv' (cnt + 1) = Some (get_vec (snd res) (fst (fst res)), snd (fst res))"
        by blast
      then show ?thesis using False unf by simp
    qed
  qed
qed

lemma jacobi_loop_h_complete:
  assumes "jacobi_loop Am bv n xv cnt = Some r"
  shows "\<forall>s x. bound_to s A Am b bv x xv \<longrightarrow>
           (\<exists>x' s'. jacobi_loop_h A b n x cnt s = Some ((x', snd r), s') \<and> get_vec s' x' = fst r)"
proof (rule jacobi_loop_induct
    [where P = "\<lambda>Am bv n xv cnt r. \<forall>s x. bound_to s A Am b bv x xv \<longrightarrow>
           (\<exists>x' s'. jacobi_loop_h A b n x cnt s = Some ((x', snd r), s') \<and> get_vec s' x' = fst r)",
     OF _ assms])
  fix loop Am bv n xv cnt r
  assume IH: "\<And>Am bv n xv cnt r. loop Am bv n xv cnt = Some r \<Longrightarrow>
      \<forall>s x. bound_to s A Am b bv x xv \<longrightarrow>
           (\<exists>x' s'. jacobi_loop_h A b n x cnt s = Some ((x', snd r), s') \<and> get_vec s' x' = fst r)"
    and eq: "(let y = xv; x = jacobi_sweep Am bv n y xv; cnt = cnt + 1
          in if norm2 (vsub x y) \<le> eps then Some (x, cnt) else loop Am bv n x cnt) = Some r"
  show "\<forall>s x. bound_to s A Am b bv x xv \<longrightarrow>
           (\<exists>x' s'. jacobi_loop_h A b n x cnt s = Some ((x', snd r), s') \<and> get_vec s' x' = fst r)"
  proof (intro allI impI)
    fix s x assume bd: "bound_to s A Am b bv x xv"
    define xv' where "xv' = jacobi_sweep Am bv n xv xv"
    define s2 where "s2 = (s @ [Vec xv])[x := Vec xv']"
    note body1 = jacobi_loop_h_body(1)[where F = jacobi_loop_h and cnt = cnt and n = n, OF bd, folded xv'_def, folded s2_def]
      and body2 = jacobi_loop_h_body(2)[where n = n, OF bd, folded xv'_def, folded s2_def]
    have unf: "jacobi_loop_h A b n x cnt s
               = (if norm2 (vsub xv' xv) \<le> eps then Some ((x, cnt + 1), s2)
                  else jacobi_loop_h A b n x (cnt + 1) s2)"
      by (subst jacobi_loop_h.simps) (rule body1)
    have xs2: "get_vec s2 x = xv'"
      using body2 by (simp add: bound_to_def get_vec_def)
    have eq': "(if norm2 (vsub xv' xv) \<le> eps then Some (xv', cnt + 1)
                else loop Am bv n xv' (cnt + 1)) = Some r"
      using eq by (auto simp: Let_def xv'_def split: if_splits)
    show "\<exists>x' s'. jacobi_loop_h A b n x cnt s = Some ((x', snd r), s') \<and> get_vec s' x' = fst r"
    proof (cases "norm2 (vsub xv' xv) \<le> eps")
      case True
      then have "r = (xv', cnt + 1)" using eq' by simp
      then show ?thesis using True unf xs2 by simp
    next
      case False
      then have "loop Am bv n xv' (cnt + 1) = Some r" using eq' by simp
      from IH[OF this] body2
      have "\<exists>x' s'. jacobi_loop_h A b n x (cnt + 1) s2 = Some ((x', snd r), s') \<and> get_vec s' x' = fst r"
        by blast
      then show ?thesis using False unf by simp
    qed
  qed
qed

lemma jacobi_loop_h_value:
  assumes "bound_to s A Am b bv x xv"
  shows "map_option (\<lambda>((x', c), s'). (get_vec s' x', c)) (jacobi_loop_h A b n x cnt s)
         = jacobi_loop Am bv n xv cnt"
proof (cases "jacobi_loop Am bv n xv cnt")
  case None
  have "jacobi_loop_h A b n x cnt s = None"
  proof (cases "jacobi_loop_h A b n x cnt s")
    case (Some res)
    from jacobi_loop_h_sound[OF this, of Am bv] assms None show ?thesis by simp
  qed simp
  then show ?thesis using None by simp
next
  case (Some r)
  from jacobi_loop_h_complete[OF this, of A b] assms
  obtain x' s' where "jacobi_loop_h A b n x cnt s = Some ((x', snd r), s')" "get_vec s' x' = fst r"
    by blast
  then show ?thesis using Some by simp
qed

lemma gauss_seidel_loop_h_body:
  fixes n :: nat
  assumes "bound_to s A Am b bv x xv"
  defines "xv' \<equiv> gauss_seidel_sweep Am bv n xv"
  defines "s2 \<equiv> (s @ [Vec xv])[x := Vec xv']"
  shows "(let (y, s) = copy_arr x s;
              s = put x (Vec (gauss_seidel_sweep (get_mat s A) (get_vec s b) n (get_vec s x))) s;
              cnt = cnt + 1
          in if norm2 (vsub (get_vec s x) (get_vec s y)) \<le> eps then Some ((x, cnt), s)
             else F A b n x cnt s)
         = (if norm2 (vsub xv' xv) \<le> eps then Some ((x, cnt + 1), s2)
            else F A b n x (cnt + 1) s2)"
    and "bound_to s2 A Am b bv x xv'"
proof -
  have c: "copy_arr x s = (length s, s @ [Vec xv])"
    using assms(1) by (simp add: bound_to_def copy_arr_def alloc_def)
  have g: "get_mat (s @ [Vec xv]) A = Am" "get_vec (s @ [Vec xv]) b = bv"
    "get_vec (s @ [Vec xv]) x = xv" "get_vec (s @ [Vec xv]) (length s) = xv"
    using assms(1) by (simp_all add: bound_to_def get_mat_def get_vec_def nth_append)
  have g2: "get_vec s2 x = xv'" "get_vec s2 (length s) = xv"
    using assms(1) by (simp_all add: bound_to_def s2_def get_vec_def nth_append)
  show "(let (y, s) = copy_arr x s;
              s = put x (Vec (gauss_seidel_sweep (get_mat s A) (get_vec s b) n (get_vec s x))) s;
              cnt = cnt + 1
          in if norm2 (vsub (get_vec s x) (get_vec s y)) \<le> eps then Some ((x, cnt), s)
             else F A b n x cnt s)
         = (if norm2 (vsub xv' xv) \<le> eps then Some ((x, cnt + 1), s2)
            else F A b n x (cnt + 1) s2)"
    unfolding c prod.case Let_def g put_def xv'_def[symmetric] s2_def[symmetric] g2 ..
  show "bound_to s2 A Am b bv x xv'"
    using assms(1) by (auto simp: bound_to_def s2_def nth_append)
qed

lemma gauss_seidel_loop_h_sound:
  assumes "gauss_seidel_loop_h A b n x cnt s = Some res"
  shows "\<forall>xv. bound_to s A Am b bv x xv \<longrightarrow>
           gauss_seidel_loop Am bv n xv cnt = Some (get_vec (snd res) (fst (fst res)), snd (fst res))"
proof (rule gauss_seidel_loop_h_induct
    [where P = "\<lambda>A b n x cnt s res. \<forall>xv. bound_to s A Am b bv x xv \<longrightarrow>
           gauss_seidel_loop Am bv n xv cnt = Some (get_vec (snd res) (fst (fst res)), snd (fst res))",
     OF _ assms])
  fix loop A b n x cnt s res
  assume IH: "\<And>A b n x cnt s res. loop A b n x cnt s = Some res \<Longrightarrow>
      \<forall>xv. bound_to s A Am b bv x xv \<longrightarrow>
           gauss_seidel_loop Am bv n xv cnt = Some (get_vec (snd res) (fst (fst res)), snd (fst res))"
    and eq: "(let (y, s) = copy_arr x s;
              s = put x (Vec (gauss_seidel_sweep (get_mat s A) (get_vec s b) n (get_vec s x))) s;
              cnt = cnt + 1
          in if norm2 (vsub (get_vec s x) (get_vec s y)) \<le> eps then Some ((x, cnt), s)
             else loop A b n x cnt s) = Some res"
  show "\<forall>xv. bound_to s A Am b bv x xv \<longrightarrow>
           gauss_seidel_loop Am bv n xv cnt = Some (get_vec (snd res) (fst (fst res)), snd (fst res))"
  proof (intro allI impI)
    fix xv assume bd: "bound_to s A Am b bv x xv"
    define xv' where "xv' = gauss_seidel_sweep Am bv n xv"
    define s2 where "s2 = (s @ [Vec xv])[x := Vec xv']"
    note body1 = gauss_seidel_loop_h_body(1)[where F = loop and cnt = cnt and n = n, OF bd, folded xv'_def, folded s2_def]
      and body2 = gauss_seidel_loop_h_body(2)[where n = n, OF bd, folded xv'_def, folded s2_def]
    have eq': "(if norm2 (vsub xv' xv) \<le> eps then Some ((x, cnt + 1), s2)
                else loop A b n x (cnt + 1) s2) = Some res"
      using eq unfolding body1 .
    have xs2: "get_vec s2 x = xv'"
      using body2 by (simp add: bound_to_def get_vec_def)
    have unf: "gauss_seidel_loop Am bv n xv cnt
               = (if norm2 (vsub xv' xv) \<le> eps then Some (xv', cnt + 1)
                  else gauss_seidel_loop Am bv n xv' (cnt + 1))"
      by (subst gauss_seidel_loop.simps) (simp add: Let_def xv'_def)
    show "gauss_seidel_loop Am bv n xv cnt = Some (get_vec (snd res) (fst (fst res)), snd (fst res))"
    proof (cases "norm2 (vsub xv' xv) \<le> eps")
      case True
      then have "res = ((x, cnt + 1), s2)" using eq' by simp
      then show ?thesis using True unf xs2 by simp
    next
      case False
      then have "loop A b n x (cnt + 1) s2 = Some res" using eq' by simp
      from IH[OF this] body2
      have "gauss_seidel_loop Am bv n xv' (cnt + 1) = Some (get_vec (snd res) (fst (fst res)), snd (fst res))"
        by blast
      then show ?thesis using False unf by simp
    qed
  qed
qed

lemma gauss_seidel_loop_h_complete:
  assumes "gauss_seidel_loop Am bv n xv cnt = Some r"
  shows "\<forall>s x. bound_to s A Am b bv x xv \<longrightarrow>
           (\<exists>x' s'. gauss_seidel_loop_h A b n x cnt s = Some ((x', snd r), s') \<and> get_vec s' x' = fst r)"
proof (rule gauss_seidel_loop_induct
    [where P = "\<lambda>Am bv n xv cnt r. \<forall>s x. bound_to s A Am b bv x xv \<longrightarrow>
           (\<exists>x' s'. gauss_seidel_loop_h A b n x cnt s = Some ((x', snd r), s') \<and> get_vec s' x' = fst r)",
     OF _ assms])
  fix loop Am bv n xv cnt r
  assume IH: "\<And>Am bv n xv cnt r. loop Am bv n xv cnt = Some r \<Longrightarrow>
      \<forall>s x. bound_to s A Am b bv x xv \<longrightarrow>
           (\<exists>x' s'. gauss_seidel_loop_h A b n x cnt s = Some ((x', snd r), s') \<and> get_vec s' x' = fst r)"
    and eq: "(let y = xv; x = gauss_seidel_sweep Am bv n xv; cnt = cnt + 1
          in if norm2 (vsub x y) \<le> eps then Some (x, cnt) else loop Am bv n x cnt) = Some r"
  show "\<forall>s x. bound_to s A Am b bv x xv \<longrightarrow>
           (\<exists>x' s'. gauss_seidel_loop_h A b n x cnt s = Some ((x', snd r), s') \<and> get_vec s' x' = fst r)"
  proof (intro allI impI)
    fix s x assume bd: "bound_to s A Am b bv x xv"
    define xv' where "xv' = gauss_seidel_sweep Am bv n xv"
    define s2 where "s2 = (s @ [Vec xv])[x := Vec xv']"
    note body1 = gauss_seidel_loop_h_body(1)[where F = gauss_seidel_loop_h and cnt = cnt and n = n, OF bd, folded xv'_def, folded s2_def]
      and body2 = gauss_seidel_loop_h_body(2)[where n = n, OF bd, folded xv'_def, folded s2_def]
    have unf: "gauss_seidel_loop_h A b n x cnt s
               = (if norm2 (vsub xv' xv) \<le> eps then Some ((x, cnt + 1), s2)
                  else gauss_seidel_loop_h A b n x (cnt + 1) s2)"
      by (subst gauss_seidel_loop_h.simps) (rule body1)
    have xs2: "get_vec s2 x = xv'"
      using body2 by (simp add: bound_to_def get_vec_def)
    have eq': "(if norm2 (vsub xv' xv) \<le> eps then Some (xv', cnt + 1)
                else loop Am bv n xv' (cnt + 1)) = Some r"
      using eq by (auto simp: Let_def xv'_def split: if_splits)
    show "\<exists>x' s'. gauss_seidel_loop_h A b n x cnt s = Some ((x', snd r), s') \<and> get_vec s' x' = fst r"
    proof (cases "norm2 (vsub xv' xv) \<le> eps")
      case True
      then have "r = (xv', cnt + 1)" using eq' by simp
      then show ?thesis using True unf xs2 by simp
    next
      case False
      then have "loop Am bv n xv' (cnt + 1) = Some r" using eq' by simp
      from IH[OF this] body2
      have "\<exists>x' s'. gauss_seidel_loop_h A b n x (cnt + 1) s2 = Some ((x', snd r), s') \<and> get_vec s' x' = fst r"
        by blast
      then show ?thesis using False unf by simp
    qed
  qed
qed

lemma gauss_seidel_loop_h_value:
  assumes "bound_to s A Am b bv x xv"
  shows "map_option (\<lambda>((x', c), s'). (get_vec s' x', c)) (gauss_seidel_loop_h A b n x cnt s)
         = gauss_seidel_loop Am bv n xv cnt"
proof (cases "gauss_seidel_loop Am bv n xv cnt")
  case None
  have "gauss_seidel_loop_h A b n x cnt s = None"
  proof (cases "gauss_seidel_loop_h A b n x cnt s")
    case (Some res)
    from gauss_seidel_loop_h_sound[OF this, of Am bv] assms None show ?thesis by simp
  qed simp
  then show ?thesis using None by simp
next
  case (Some r)
  from gauss_seidel_loop_h_complete[OF this, of A b] assms
  obtain x' s' where "gauss_seidel_loop_h A b n x cnt s = Some ((x', snd r), s')" "get_vec s' x' = fst r"
    by blast
  then show ?thesis using Some by simp
qed

lemma sor_loop_h_body:
  fixes n :: nat and w :: flt
  assumes "bound_to s A Am b bv x xv"
  defines "xv' \<equiv> sor_sweep Am bv w n xv"
  defines "s2 \<equiv> (s @ [Vec xv])[x := Vec xv']"
  shows "(let (y, s) = copy_arr x s;
              s = put x (Vec (sor_sweep (get_mat s A) (get_vec s b) w n (get_vec s x))) s;
              cnt = cnt + 1
          in if norm2 (vsub (get_vec s x) (get_vec s y)) \<le> eps then Some ((x, cnt), s)
             else F A b w n x cnt s)
         = (if norm2 (vsub xv' xv) \<le> eps then Some ((x, cnt + 1), s2)
            else F A b w n x (cnt + 1) s2)"
    and "bound_to s2 A Am b bv x xv'"
proof -
  have c: "copy_arr x s = (length s, s @ [Vec xv])"
    using assms(1) by (simp add: bound_to_def copy_arr_def alloc_def)
  have g: "get_mat (s @ [Vec xv]) A = Am" "get_vec (s @ [Vec xv]) b = bv"
    "get_vec (s @ [Vec xv]) x = xv" "get_vec (s @ [Vec xv]) (length s) = xv"
    using assms(1) by (simp_all add: bound_to_def get_mat_def get_vec_def nth_append)
  have g2: "get_vec s2 x = xv'" "get_vec s2 (length s) = xv"
    using assms(1) by (simp_all add: bound_to_def s2_def get_vec_def nth_append)
  show "(let (y, s) = copy_arr x s;
              s = put x (Vec (sor_sweep (get_mat s A) (get_vec s b) w n (get_vec s x))) s;
              cnt = cnt + 1
          in if norm2 (vsub (get_vec s x) (get_vec s y)) \<le> eps then Some ((x, cnt), s)
             else F A b w n x cnt s)
         = (if norm2 (vsub xv' xv) \<le> eps then Some ((x, cnt + 1), s2)
            else F A b w n x (cnt + 1) s2)"
    unfolding c prod.case Let_def g put_def xv'_def[symmetric] s2_def[symmetric] g2 ..
  show "bound_to s2 A Am b bv x xv'"
    using assms(1) by (auto simp: bound_to_def s2_def nth_append)
qed

lemma sor_loop_h_sound:
  assumes "sor_loop_h A b w n x cnt s = Some res"
  shows "\<forall>xv. bound_to s A Am b bv x xv \<longrightarrow>
           sor_loop Am bv w n xv cnt = Some (get_vec (snd res) (fst (fst res)), snd (fst res))"
proof (rule sor_loop_h_induct
    [where P = "\<lambda>A b w n x cnt s res. \<forall>xv. bound_to s A Am b bv x xv \<longrightarrow>
           sor_loop Am bv w n xv cnt = Some (get_vec (snd res) (fst (fst res)), snd (fst res))",
     OF _ assms])
  fix loop A b w n x cnt s res
  assume IH: "\<And>A b w n x cnt s res. loop A b w n x cnt s = Some res \<Longrightarrow>
      \<forall>xv. bound_to s A Am b bv x xv \<longrightarrow>
           sor_loop Am bv w n xv cnt = Some (get_vec (snd res) (fst (fst res)), snd (fst res))"
    and eq: "(let (y, s) = copy_arr x s;
              s = put x (Vec (sor_sweep (get_mat s A) (get_vec s b) w n (get_vec s x))) s;
              cnt = cnt + 1
          in if norm2 (vsub (get_vec s x) (get_vec s y)) \<le> eps then Some ((x, cnt), s)
             else loop A b w n x cnt s) = Some res"
  show "\<forall>xv. bound_to s A Am b bv x xv \<longrightarrow>
           sor_loop Am bv w n xv cnt = Some (get_vec (snd res) (fst (fst res)), snd (fst res))"
  proof (intro allI impI)
    fix xv assume bd: "bound_to s A Am b bv x xv"
    define xv' where "xv' = sor_sweep Am bv w n xv"
    define s2 where "s2 = (s @ [Vec xv])[x := Vec xv']"
    note body1 = sor_loop_h_body(1)[where F = loop and cnt = cnt and n = n and w = w, OF bd, folded xv'_def, folded s2_def]
      and body2 = sor_loop_h_body(2)[where n = n and w = w, OF bd, folded xv'_def, folded s2_def]
    have eq': "(if norm2 (vsub xv' xv) \<le> eps then Some ((x, cnt + 1), s2)
                else loop A b w n x (cnt + 1) s2) = Some res"
      using eq unfolding body1 .
    have xs2: "get_vec s2 x = xv'"
      using body2 by (simp add: bound_to_def get_vec_def)
    have unf: "sor_loop Am bv w n xv cnt
               = (if norm2 (vsub xv' xv) \<le> eps then Some (xv', cnt + 1)
                  else sor_loop Am bv w n xv' (cnt + 1))"
      by (subst sor_loop.simps) (simp add: Let_def xv'_def)
    show "sor_loop Am bv w n xv cnt = Some (get_vec (snd res) (fst (fst res)), snd (fst res))"
    proof (cases "norm2 (vsub xv' xv) \<le> eps")
      case True
      then have "res = ((x, cnt + 1), s2)" using eq' by simp
      then show ?thesis using True unf xs2 by simp
    next
      case False
      then have "loop A b w n x (cnt + 1) s2 = Some res" using eq' by simp
      from IH[OF this] body2
      have "sor_loop Am bv w n xv' (cnt + 1) = Some (get_vec (snd res) (fst (fst res)), snd (fst res))"
        by blast
      then show ?thesis using False unf by simp
    qed
  qed
qed

lemma sor_loop_h_complete:
  assumes "sor_loop Am bv w n xv cnt = Some r"
  shows "\<forall>s x. bound_to s A Am b bv x xv \<longrightarrow>
           (\<exists>x' s'. sor_loop_h A b w n x cnt s = Some ((x', snd r), s') \<and> get_vec s' x' = fst r)"
proof (rule sor_loop_induct
    [where P = "\<lambda>Am bv w n xv cnt r. \<forall>s x. bound_to s A Am b bv x xv \<longrightarrow>
           (\<exists>x' s'. sor_loop_h A b w n x cnt s = Some ((x', snd r), s') \<and> get_vec s' x' = fst r)",
     OF _ assms])
  fix loop Am bv w n xv cnt r
  assume IH: "\<And>Am bv w n xv cnt r. loop Am bv w n xv cnt = Some r \<Longrightarrow>
      \<forall>s x. bound_to s A Am b bv x xv \<longrightarrow>
           (\<exists>x' s'. sor_loop_h A b w n x cnt s = Some ((x', snd r), s') \<and> get_vec s' x' = fst r)"
    and eq: "(let y = xv; x = sor_sweep Am bv w n xv; cnt = cnt + 1
          in if norm2 (vsub x y) \<le> eps then Some (x, cnt) else loop Am bv w n x cnt) = Some r"
  show "\<forall>s x. bound_to s A Am b bv x xv \<longrightarrow>
           (\<exists>x' s'. sor_loop_h A b w n x cnt s = Some ((x', snd r), s') \<and> get_vec s' x' = fst r)"
  proof (intro allI impI)
    fix s x assume bd: "bound_to s A Am b bv x xv"
    define xv' where "xv' = sor_sweep Am bv w n xv"
    define s2 where "s2 = (s @ [Vec xv])[x := Vec xv']"
    note body1 = sor_loop_h_body(1)[where F = sor_loop_h and cnt = cnt and n = n and w = w, OF bd, folded xv'_def, folded s2_def]
      and body2 = sor_loop_h_body(2)[where n = n and w = w, OF bd, folded xv'_def, folded s2_def]
    have unf: "sor_loop_h A b w n x cnt s
               = (if norm2 (vsub xv' xv) \<le> eps then Some ((x, cnt + 1), s2)
                  else sor_loop_h A b w n x (cnt + 1) s2)"
      by (subst sor_loop_h.simps) (rule body1)
    have xs2: "get_vec s2 x = xv'"
      using body2 by (simp add: bound_to_def get_vec_def)
    have eq': "(if norm2 (vsub xv' xv) \<le> eps then Some (xv', cnt + 1)
                else loop Am bv w n xv' (cnt + 1)) = Some r"
      using eq by (auto simp: Let_def xv'_def split: if_splits)
    show "\<exists>x' s'. sor_loop_h A b w n x cnt s = Some ((x', snd r), s') \<and> get_vec s' x' = fst r"
    proof (cases "norm2 (vsub xv' xv) \<le> eps")
      case True
      then have "r = (xv', cnt + 1)" using eq' by simp
      then show ?thesis using True unf xs2 by simp
    next
      case False
      then have "loop Am bv w n xv' (cnt + 1) = Some r" using eq' by simp
      from IH[OF this] body2
      have "\<exists>x' s'. sor_loop_h A b w n x (cnt + 1) s2 = Some ((x', snd r), s') \<and> get_vec s' x' = fst r"
        by blast
      then show ?thesis using False unf by simp
    qed
  qed
qed

lemma sor_loop_h_value:
  assumes "bound_to s A Am b bv x xv"
  shows "map_option (\<lambda>((x', c), s'). (get_vec s' x', c)) (sor_loop_h A b w n x cnt s)
         = sor_loop Am bv w n xv cnt"
proof (cases "sor_loop Am bv w n xv cnt")
  case None
  have "sor_loop_h A b w n x cnt s = None"
  proof (cases "sor_loop_h A b w n x cnt s")
    case (Some res)
    from sor_loop_h_sound[OF this, of Am bv] assms None show ?thesis by simp
  qed simp
  then show ?thesis using None by simp
next
  case (Some r)
  from sor_loop_h_complete[OF this, of A b] assms
  obtain x' s' where "sor_loop_h A b w n x cnt s = Some ((x', snd r), s')" "get_vec s' x' = fst r"
    by blast
  then show ?thesis using Some by simp
qed


lemma jacobi_h_value:
  assumes "s ! A = Mat Am" and "s ! b = Vec bv" and "s ! x0 = Vec xv"
    and "b < length s" and "x0 < length s"
  shows "view_outcome (jacobi_h linv eigvals A b x0 s) = jacobi linv eigvals Am bv xv"
proof -
  let ?N = "length s"
  let ?s2 = "s @ [Mat Am, Vec bv]"
  have c1: "copy_arr A s = (?N, s @ [Mat Am])" using assms(1) by (simp add: copy_arr_def alloc_def)
  have c2: "copy_arr b (s @ [Mat Am]) = (Suc ?N, ?s2)"
    using assms(2,4) by (simp add: copy_arr_def alloc_def nth_append)
  have g: "get_mat ?s2 ?N = Am" by (simp add: get_mat_def nth_append)
  have c3: "copy_arr x0 ?s2 = (Suc (Suc ?N), ?s2 @ [Vec xv])"
    using assms(3,5) by (simp add: copy_arr_def alloc_def nth_append)
  have bd: "bound_to (?s2 @ [Vec xv]) ?N Am (Suc ?N) bv (Suc (Suc ?N)) xv"
    by (simp add: bound_to_def nth_append)
  have run: "map_option (\<lambda>((x', c), s'). (get_vec s' x', c))
               (jacobi_loop_h ?N (Suc ?N) (length Am) (Suc (Suc ?N)) 0 (?s2 @ [Vec xv]))
             = jacobi_loop Am bv (length Am) xv 0"
    using bd by (rule jacobi_loop_h_value)
  have unf: "jacobi_h linv eigvals A b x0 s
        = after_check_h (check_jacobi_convergency linv eigvals Am) ?s2
            (\<lambda>s. jacobi_loop_h ?N (Suc ?N) (length Am) (Suc (Suc ?N)) 0 (?s2 @ [Vec xv]))"
    unfolding jacobi_h_def c1 c2 prod.case Let_def g after_check_h_def c3 ..
  show ?thesis
  proof (cases "check_jacobi_convergency linv eigvals Am")
    case (Inl e)
    then show ?thesis
      by (simp add: unf after_check_h_def view_outcome_def jacobi_def after_check_def)
  next
    case (Inr p)
    obtain ok out where p: "p = (ok, out)" by (cases p)
    show ?thesis
    proof (cases ok)
      case False
      then show ?thesis using Inr p
        by (simp add: unf after_check_h_def view_outcome_def jacobi_def after_check_def)
    next
      case True
      show ?thesis
      proof (cases "jacobi_loop Am bv (length Am) xv 0")
        case None
        then have "jacobi_loop_h ?N (Suc ?N) (length Am) (Suc (Suc ?N)) 0 (?s2 @ [Vec xv]) = None"
          using run by simp
        then show ?thesis using Inr p True None
          by (simp add: unf after_check_h_def view_outcome_def jacobi_def after_check_def)
      next
        case (Some r)
        then obtain x' c s' where
          h: "jacobi_loop_h ?N (Suc ?N) (length Am) (Suc (Suc ?N)) 0 (?s2 @ [Vec xv]) = Some ((x', c), s')"
            "r = (get_vec s' x', c)"
          using run by (auto simp: map_option_case split: option.splits)
        then show ?thesis using Inr p True Some
          by (simp add: unf after_check_h_def view_outcome_def jacobi_def after_check_def)
      qed
    qed
  qed
qed

lemma gauss_seidel_h_value:
  assumes "s ! A = Mat Am" and "s ! b = Vec bv" and "s ! x0 = Vec xv"
    and "b < length s" and "x0 < length s"
  shows "view_outcome (gauss_seidel_h linv eigvals A b x0 s) = gauss_seidel linv eigvals Am bv xv"
proof -
  let ?N = "length s"
  let ?s2 = "s @ [Mat Am, Vec bv]"
  have c1: "copy_arr A s = (?N, s @ [Mat Am])" using assms(1) by (simp add: copy_arr_def alloc_def)
  have c2: "copy_arr b (s @ [Mat Am]) = (Suc ?N, ?s2)"
    using assms(2,4) by (simp add: copy_arr_def alloc_def nth_append)
  have g: "get_mat ?s2 ?N = Am" by (simp add: get_mat_def nth_append)
  have c3: "copy_arr x0 ?s2 = (Suc (Suc ?N), ?s2 @ [Vec xv])"
    using assms(3,5) by (simp add: copy_arr_def alloc_def nth_append)
  have bd: "bound_to (?s2 @ [Vec xv]) ?N Am (Suc ?N) bv (Suc (Suc ?N)) xv"
    by (simp add: bound_to_def nth_append)
  have run: "map_option (\<lambda>((x', c), s'). (get_vec s' x', c))
               (gauss_seidel_loop_h ?N (Suc ?N) (length Am) (Suc (Suc ?N)) 0 (?s2 @ [Vec xv]))
             = gauss_seidel_loop Am bv (length Am) xv 0"
    using bd by (rule gauss_seidel_loop_h_value)
  have unf: "gauss_seidel_h linv eigvals A b x0 s
        = after_check_h (check_gauss_seidel_convergency linv eigvals Am) ?s2
            (\<lambda>s. gauss_seidel_loop_h ?N (Suc ?N) (length Am) (Suc (Suc ?N)) 0 (?s2 @ [Vec xv]))"
    unfolding gauss_seidel_h_def c1 c2 prod.case Let_def g after_check_h_def c3 ..
  show ?thesis
  proof (cases "check_gauss_seidel_convergency linv eigvals Am")
    case (Inl e)
    then show ?thesis
      by (simp add: unf after_check_h_def view_outcome_def gauss_seidel_def after_check_def)
  next
    case (Inr p)
    obtain ok out where p: "p = (ok, out)" by (cases p)
    show ?thesis
    proof (cases ok)
      case False
      then show ?thesis using Inr p
        by (simp add: unf after_check_h_def view_outcome_def gauss_seidel_def after_check_def)
    next
      case True
      show ?thesis
      proof (cases "gauss_seidel_loop Am bv (length Am) xv 0")
        case None
        then have "gauss_seidel_loop_h ?N (Suc ?N) (length Am) (Suc (Suc ?N)) 0 (?s2 @ [Vec xv]) = None"
          using run by simp
        then show ?thesis using Inr p True None
          by (simp add: unf after_check_h_def view_outcome_def gauss_seidel_def after_check_def)
      next
        case (Some r)
        then obtain x' c s' where
          h: "gauss_seidel_loop_h ?N (Suc ?N) (length Am) (Suc (Suc ?N)) 0 (?s2 @ [Vec xv]) = Some ((x', c), s')"
            "r = (get_vec s' x', c)"
          using run by (auto simp: map_option_case split: option.splits)
        then show ?thesis using Inr p True Some
          by (simp add: unf after_check_h_def view_outcome_def gauss_seidel_def after_check_def)
      qed
    qed
  qed
qed

lemma successive_over_relaxation_h_value:
  assumes "s ! A = Mat Am" and "s ! b = Vec bv" and "s ! x0 = Vec xv"
    and "b < length s" and "x0 < length s"
  shows "view_outcome (successive_over_relaxation_h linv eigvals A b w x0 s) = successive_over_relaxation linv eigvals Am bv w xv"
proof -
  let ?N = "length s"
  let ?s2 = "s @ [Mat Am, Vec bv]"
  have c1: "copy_arr A s = (?N, s @ [Mat Am])" using assms(1) by (simp add: copy_arr_def alloc_def)
  have c2: "copy_arr b (s @ [Mat Am]) = (Suc ?N, ?s2)"
    using assms(2,4) by (simp add: copy_arr_def alloc_def nth_append)
  have g: "get_mat ?s2 ?N = Am" by (simp add: get_mat_def nth_append)
  have c3: "copy_arr x0 ?s2 = (Suc (Suc ?N), ?s2 @ [Vec xv])"
    using assms(3,5) by (simp add: copy_arr_def alloc_def nth_append)
  have bd: "bound_to (?s2 @ [Vec xv]) ?N Am (Suc ?N) bv (Suc (Suc ?N)) xv"
    by (simp add: bound_to_def nth_append)
  have run: "map_option (\<lambda>((x', c), s'). (get_vec s' x', c))
               (sor_loop_h ?N (Suc ?N) w (length Am) (Suc (Suc ?N)) 0 (?s2 @ [Vec xv]))
             = sor_loop Am bv w (length Am) xv 0"
    using bd by (rule sor_loop_h_value)
  have unf: "successive_over_relaxation_h linv eigvals A b w x0 s
        = after_check_h (check_successive_over_relaxation_convergency linv eigvals Am w) ?s2
            (\<lambda>s. sor_loop_h ?N (Suc ?N) w (length Am) (Suc (Suc ?N)) 0 (?s2 @ [Vec xv]))"
    unfolding successive_over_relaxation_h_def c1 c2 prod.case Let_def g after_check_h_def c3 ..
  show ?thesis
  proof (cases "check_successive_over_relaxation_convergency linv eigvals Am w")
    case (Inl e)
    then show ?thesis
      by (simp add: unf after_check_h_def view_outcome_def successive_over_relaxation_def after_check_def)
  next
    case (Inr p)
    obtain ok out where p: "p = (ok, out)" by (cases p)
    show ?thesis
    proof (cases ok)
      case False
      then show ?thesis using Inr p
        by (simp add: unf after_check_h_def view_outcome_def successive_over_relaxation_def after_check_def)
    next
      case True
      show ?thesis
      proof (cases "sor_loop Am bv w (length Am) xv 0")
        case None
        then have "sor_loop_h ?N (Suc ?N) w (length Am) (Suc (Suc ?N)) 0 (?s2 @ [Vec xv]) = None"
          using run by simp
        then show ?thesis using Inr p True None
          by (simp add: unf after_check_h_def view_outcome_def successive_over_relaxation_def after_check_def)
      next
        case (Some r)
        then obtain x' c s' where
          h: "sor_loop_h ?N (Suc ?N) w (length Am) (Suc (Suc ?N)) 0 (?s2 @ [Vec xv]) = Some ((x', c), s')"
            "r = (get_vec s' x', c)"
          using run by (auto simp: map_option_case split: option.splits)
        then show ?thesis using Inr p True Some
          by (simp add: unf after_check_h_def view_outcome_def successive_over_relaxation_def after_check_def)
      qed
    qed
  qed
qed


lemma cg_loop_h_body:
  assumes "A < length s" "x < length s" "r < length s" "p < length s"
    and "s ! A = Mat Am" "s ! x = Vec xv" "s ! r = Vec rv" "s ! p = Vec pv"
    and "cg_sweep Am (xv, rv, pv) = (x', r', p')"
  defines "s3 \<equiv> s @ [Vec x', Vec r', Vec p']"
  shows "(let y = x;
              (x', r', p') = cg_sweep (get_mat s A) (get_vec s x, get_vec s r, get_vec s p);
              (x, s) = alloc (Vec x') s;
              (r, s) = alloc (Vec r') s;
              (p, s) = alloc (Vec p') s;
              cnt = cnt + 1
          in if norm2 (vsub (get_vec s x) (get_vec s y)) \<le> eps then Some ((x, cnt), s)
             else F A x r p cnt s)
         = (if norm2 (vsub x' xv) \<le> eps then Some ((length s, cnt + 1), s3)
            else F A (length s) (Suc (length s)) (Suc (Suc (length s))) (cnt + 1) s3)"
proof -
  have g: "get_mat s A = Am" "get_vec s x = xv" "get_vec s r = rv" "get_vec s p = pv"
    using assms(5-8) by (simp_all add: get_mat_def get_vec_def)
  have a: "alloc (Vec x') s = (length s, s @ [Vec x'])"
    "alloc (Vec r') (s @ [Vec x']) = (Suc (length s), s @ [Vec x', Vec r'])"
    "alloc (Vec p') (s @ [Vec x', Vec r']) = (Suc (Suc (length s)), s3)"
    by (simp_all add: alloc_def s3_def)
  have g3: "get_vec s3 (length s) = x'" "get_vec s3 x = xv"
    using assms(2,6) by (simp_all add: get_vec_def s3_def nth_append)
  show ?thesis
    unfolding Let_def g assms(9) prod.case a g3 ..
qed

lemma cg_loop_h_sound:
  assumes "cg_loop_h A x r p cnt s = Some res"
  shows "\<forall>xv rv pv. A < length s \<and> x < length s \<and> r < length s \<and> p < length s
            \<and> s ! A = Mat Am \<and> s ! x = Vec xv \<and> s ! r = Vec rv \<and> s ! p = Vec pv \<longrightarrow>
           cg_loop Am (xv, rv, pv) cnt = Some (get_vec (snd res) (fst (fst res)), snd (fst res))"
proof (rule cg_loop_h_induct
    [where P = "\<lambda>A x r p cnt s res. \<forall>xv rv pv.
            A < length s \<and> x < length s \<and> r < length s \<and> p < length s
            \<and> s ! A = Mat Am \<and> s ! x = Vec xv \<and> s ! r = Vec rv \<and> s ! p = Vec pv \<longrightarrow>
           cg_loop Am (xv, rv, pv) cnt = Some (get_vec (snd res) (fst (fst res)), snd (fst res))",
     OF _ assms])
  fix loop A x r p cnt s res
  assume IH: "\<And>A x r p cnt s res. loop A x r p cnt s = Some res \<Longrightarrow>
      \<forall>xv rv pv. A < length s \<and> x < length s \<and> r < length s \<and> p < length s
            \<and> s ! A = Mat Am \<and> s ! x = Vec xv \<and> s ! r = Vec rv \<and> s ! p = Vec pv \<longrightarrow>
           cg_loop Am (xv, rv, pv) cnt = Some (get_vec (snd res) (fst (fst res)), snd (fst res))"
    and eq: "(let y = x;
              (x', r', p') = cg_sweep (get_mat s A) (get_vec s x, get_vec s r, get_vec s p);
              (x, s) = alloc (Vec x') s;
              (r, s) = alloc (Vec r') s;
              (p, s) = alloc (Vec p') s;
              cnt = cnt + 1
          in if norm2 (vsub (get_vec s x) (get_vec s y)) \<le> eps then Some ((x, cnt), s)
             else loop A x r p cnt s) = Some res"
  show "\<forall>xv rv pv. A < length s \<and> x < length s \<and> r < length s \<and> p < length s
            \<and> s ! A = Mat Am \<and> s ! x = Vec xv \<and> s ! r = Vec rv \<and> s ! p = Vec pv \<longrightarrow>
           cg_loop Am (xv, rv, pv) cnt = Some (get_vec (snd res) (fst (fst res)), snd (fst res))"
  proof (intro allI impI)
    fix xv rv pv
    assume bd: "A < length s \<and> x < length s \<and> r < length s \<and> p < length s
            \<and> s ! A = Mat Am \<and> s ! x = Vec xv \<and> s ! r = Vec rv \<and> s ! p = Vec pv"
    obtain x' r' p' where sw: "cg_sweep Am (xv, rv, pv) = (x', r', p')"
      by (cases "cg_sweep Am (xv, rv, pv)")
    define s3 where "s3 = s @ [Vec x', Vec r', Vec p']"
    have body: "(let y = x;
              (x', r', p') = cg_sweep (get_mat s A) (get_vec s x, get_vec s r, get_vec s p);
              (x, s) = alloc (Vec x') s;
              (r, s) = alloc (Vec r') s;
              (p, s) = alloc (Vec p') s;
              cnt = cnt + 1
          in if norm2 (vsub (get_vec s x) (get_vec s y)) \<le> eps then Some ((x, cnt), s)
             else loop A x r p cnt s)
         = (if norm2 (vsub x' xv) \<le> eps then Some ((length s, cnt + 1), s3)
            else loop A (length s) (Suc (length s)) (Suc (Suc (length s))) (cnt + 1) s3)"
      unfolding s3_def using bd sw by (intro cg_loop_h_body) simp_all
    have eq': "(if norm2 (vsub x' xv) \<le> eps then Some ((length s, cnt + 1), s3)
            else loop A (length s) (Suc (length s)) (Suc (Suc (length s))) (cnt + 1) s3) = Some res"
      using eq unfolding body .
    have unf: "cg_loop Am (xv, rv, pv) cnt
               = (if norm2 (vsub x' xv) \<le> eps then Some (x', cnt + 1)
                  else cg_loop Am (x', r', p') (cnt + 1))"
      by (subst cg_loop.simps) (simp add: Let_def sw)
    have bd3: "A < length s3 \<and> length s < length s3 \<and> Suc (length s) < length s3
               \<and> Suc (Suc (length s)) < length s3
               \<and> s3 ! A = Mat Am \<and> s3 ! length s = Vec x' \<and> s3 ! Suc (length s) = Vec r'
               \<and> s3 ! Suc (Suc (length s)) = Vec p'"
      using bd by (simp add: s3_def nth_append)
    show "cg_loop Am (xv, rv, pv) cnt = Some (get_vec (snd res) (fst (fst res)), snd (fst res))"
    proof (cases "norm2 (vsub x' xv) \<le> eps")
      case True
      then have "res = ((length s, cnt + 1), s3)" using eq' by simp
      then show ?thesis using True unf bd3 by (simp add: get_vec_def)
    next
      case False
      then have "loop A (length s) (Suc (length s)) (Suc (Suc (length s))) (cnt + 1) s3 = Some res"
        using eq' by simp
      from IH[OF this] bd3
      have "cg_loop Am (x', r', p') (cnt + 1) = Some (get_vec (snd res) (fst (fst res)), snd (fst res))"
        by blast
      then show ?thesis using False unf by simp
    qed
  qed
qed

lemma cg_loop_h_complete:
  assumes "cg_loop Am xrp cnt = Some res"
  shows "\<forall>s x r p. A < length s \<and> x < length s \<and> r < length s \<and> p < length s
            \<and> s ! A = Mat Am \<and> s ! x = Vec (fst xrp) \<and> s ! r = Vec (fst (snd xrp))
            \<and> s ! p = Vec (snd (snd xrp)) \<longrightarrow>
           (\<exists>x1 s'. cg_loop_h A x r p cnt s = Some ((x1, snd res), s') \<and> get_vec s' x1 = fst res)"
proof (rule cg_loop.raw_induct
    [where P = "\<lambda>Am xrp cnt res. \<forall>s x r p.
            A < length s \<and> x < length s \<and> r < length s \<and> p < length s
            \<and> s ! A = Mat Am \<and> s ! x = Vec (fst xrp) \<and> s ! r = Vec (fst (snd xrp))
            \<and> s ! p = Vec (snd (snd xrp)) \<longrightarrow>
           (\<exists>x1 s'. cg_loop_h A x r p cnt s = Some ((x1, snd res), s') \<and> get_vec s' x1 = fst res)",
     OF _ assms])
  fix loop Am xrp cnt res
  assume IH: "\<And>Am xrp cnt res. loop Am xrp cnt = Some res \<Longrightarrow>
      \<forall>s x r p. A < length s \<and> x < length s \<and> r < length s \<and> p < length s
            \<and> s ! A = Mat Am \<and> s ! x = Vec (fst xrp) \<and> s ! r = Vec (fst (snd xrp))
            \<and> s ! p = Vec (snd (snd xrp)) \<longrightarrow>
           (\<exists>x1 s'. cg_loop_h A x r p cnt s = Some ((x1, snd res), s') \<and> get_vec s' x1 = fst res)"
    and eq: "(let y = fst xrp; xrp = cg_sweep Am xrp; cnt = cnt + 1
          in if norm2 (vsub (fst xrp) y) \<le> eps then Some (fst xrp, cnt) else loop Am xrp cnt) = Some res"
  show "\<forall>s x r p. A < length s \<and> x < length s \<and> r < length s \<and> p < length s
            \<and> s ! A = Mat Am \<and> s ! x = Vec (fst xrp) \<and> s ! r = Vec (fst (snd xrp))
            \<and> s ! p = Vec (snd (snd xrp)) \<longrightarrow>
           (\<exists>x1 s'. cg_loop_h A x r p cnt s = Some ((x1, snd res), s') \<and> get_vec s' x1 = fst res)"
  proof (intro allI impI)
    fix s x r p
    obtain xv rv pv where xrp: "xrp = (xv, rv, pv)" by (cases xrp)
    assume "A < length s \<and> x < length s \<and> r < length s \<and> p < length s
            \<and> s ! A = Mat Am \<and> s ! x = Vec (fst xrp) \<and> s ! r = Vec (fst (snd xrp))
            \<and> s ! p = Vec (snd (snd xrp))"
    then have bd: "A < length s \<and> x < length s \<and> r < length s \<and> p < length s
            \<and> s ! A = Mat Am \<and> s ! x = Vec xv \<and> s ! r = Vec rv \<and> s ! p = Vec pv"
      using xrp by simp
    obtain x' r' p' where sw: "cg_sweep Am (xv, rv, pv) = (x', r', p')"
      by (cases "cg_sweep Am (xv, rv, pv)")
    define s3 where "s3 = s @ [Vec x', Vec r', Vec p']"
    have body: "(let y = x;
              (x', r', p') = cg_sweep (get_mat s A) (get_vec s x, get_vec s r, get_vec s p);
              (x, s) = alloc (Vec x') s;
              (r, s) = alloc (Vec r') s;
              (p, s) = alloc (Vec p') s;
              cnt = cnt + 1
          in if norm2 (vsub (get_vec s x) (get_vec s y)) \<le> eps then Some ((x, cnt), s)
             else cg_loop_h A x r p cnt s)
         = (if norm2 (vsub x' xv) \<le> eps then Some ((length s, cnt + 1), s3)
            else cg_loop_h A (length s) (Suc (length s)) (Suc (Suc (length s))) (cnt + 1) s3)"
      unfolding s3_def using bd sw by (intro cg_loop_h_body) simp_all
    have unf: "cg_loop_h A x r p cnt s
         = (if norm2 (vsub x' xv) \<le> eps then Some ((length s, cnt + 1), s3)
            else cg_loop_h A (length s) (Suc (length s)) (Suc (Suc (length s))) (cnt + 1) s3)"
      by (subst cg_loop_h.simps) (rule body)
    have eq': "(if norm2 (vsub x' xv) \<le> eps then Some (x', cnt + 1)
                else loop Am (x', r', p') (cnt + 1)) = Some res"
      using eq xrp sw by (auto simp: Let_def split: if_splits)
    have bd3: "A < length s3 \<and> length s < length s3 \<and> Suc (length s) < length s3
               \<and> Suc (Suc (length s)) < length s3
               \<and> s3 ! A = Mat Am \<and> s3 ! length s = Vec (fst (x', r', p'))
               \<and> s3 ! Suc (length s) = Vec (fst (snd (x', r', p')))
               \<and> s3 ! Suc (Suc (length s)) = Vec (snd (snd (x', r', p')))"
      using bd by (simp add: s3_def nth_append)
    show "\<exists>x1 s'. cg_loop_h A x r p cnt s = Some ((x1, snd res), s') \<and> get_vec s' x1 = fst res"
    proof (cases "norm2 (vsub x' xv) \<le> eps")
      case True
      then have "res = (x', cnt + 1)" using eq' by simp
      then show ?thesis using True unf bd3 by (simp add: get_vec_def)
    next
      case False
      then have "loop Am (x', r', p') (cnt + 1) = Some res" using eq' by simp
      from IH[OF this] bd3
      have "\<exists>x1 s'. cg_loop_h A (length s) (Suc (length s)) (Suc (Suc (length s))) (cnt + 1) s3
                      = Some ((x1, snd res), s') \<and> get_vec s' x1 = fst res"
        by blast
      then show ?thesis using False unf by simp
    qed
  qed
qed


lemma conjugate_gradient_h_value:
  assumes "s ! A = Mat Am" and "s ! b = Vec bv" and "s ! x0 = Vec xv"
    and "b < length s" and "x0 < length s"
  shows "view_outcome (conjugate_gradient_h eigvals A b x0 s) = conjugate_gradient eigvals Am bv xv"
proof -
  let ?N = "length s"
  let ?s2 = "s @ [Mat Am, Vec bv]"
  let ?r0 = "vsub bv (mat_vec Am xv)"
  let ?s4 = "?s2 @ [Vec xv, Vec ?r0]"
  have c1: "copy_arr A s = (?N, s @ [Mat Am])" using assms(1) by (simp add: copy_arr_def alloc_def)
  have c2: "copy_arr b (s @ [Mat Am]) = (Suc ?N, ?s2)"
    using assms(2,4) by (simp add: copy_arr_def alloc_def nth_append)
  have g: "get_mat ?s2 ?N = Am" by (simp add: get_mat_def nth_append)
  have c3: "copy_arr x0 ?s2 = (Suc (Suc ?N), ?s2 @ [Vec xv])"
    using assms(3,5) by (simp add: copy_arr_def alloc_def nth_append)
  have g3: "get_vec (?s2 @ [Vec xv]) (Suc ?N) = bv" "get_mat (?s2 @ [Vec xv]) ?N = Am"
    "get_vec (?s2 @ [Vec xv]) (Suc (Suc ?N)) = xv"
    by (simp_all add: get_mat_def get_vec_def nth_append)
  have c4: "alloc (Vec ?r0) (?s2 @ [Vec xv]) = (Suc (Suc (Suc ?N)), ?s4)"
    by (simp add: alloc_def)
  have unf: "conjugate_gradient_h eigvals A b x0 s
        = after_check_h (check_symmetric_and_positive_definite_matrix eigvals Am) ?s2
            (\<lambda>s. cg_loop_h ?N (Suc (Suc ?N)) (Suc (Suc (Suc ?N))) (Suc (Suc (Suc ?N))) 1 ?s4)"
    unfolding conjugate_gradient_h_def c1 c2 prod.case Let_def g after_check_h_def c3 g3 c4 ..
  have bd: "?N < length ?s4 \<and> Suc (Suc ?N) < length ?s4 \<and> Suc (Suc (Suc ?N)) < length ?s4
            \<and> Suc (Suc (Suc ?N)) < length ?s4
            \<and> ?s4 ! ?N = Mat Am \<and> ?s4 ! Suc (Suc ?N) = Vec xv
            \<and> ?s4 ! Suc (Suc (Suc ?N)) = Vec ?r0 \<and> ?s4 ! Suc (Suc (Suc ?N)) = Vec ?r0"
    by (simp add: nth_append)
  have pure: "conjugate_gradient eigvals Am bv xv
        = after_check (check_symmetric_and_positive_definite_matrix eigvals Am)
            (cg_loop Am (xv, ?r0, ?r0) 1)"
    by (simp add: conjugate_gradient_def Let_def)
  let ?lh = "cg_loop_h ?N (Suc (Suc ?N)) (Suc (Suc (Suc ?N))) (Suc (Suc (Suc ?N))) 1 ?s4"
  have run: "map_option (\<lambda>((x', c), s'). (get_vec s' x', c)) ?lh = cg_loop Am (xv, ?r0, ?r0) 1"
  proof (cases "cg_loop Am (xv, ?r0, ?r0) 1")
    case None
    have "?lh = None"
    proof (cases ?lh)
      case (Some res)
      from cg_loop_h_sound[OF this, of Am] bd None show ?thesis by auto
    qed simp
    then show ?thesis using None by simp
  next
    case (Some r)
    have "\<exists>x1 s'. ?lh = Some ((x1, snd r), s') \<and> get_vec s' x1 = fst r"
      by (rule cg_loop_h_complete[OF Some, rule_format,
            where A = ?N and s = ?s4 and x = "Suc (Suc ?N)" and r = "Suc (Suc (Suc ?N))"
              and p = "Suc (Suc (Suc ?N))"])
         (use bd in simp)
    then obtain x1 s' where "?lh = Some ((x1, snd r), s')" "get_vec s' x1 = fst r"
      by blast
    then show ?thesis using Some by simp
  qed
  show ?thesis
  proof (cases "check_symmetric_and_positive_definite_matrix eigvals Am")
    case (Inl e)
    then show ?thesis
      by (simp add: unf pure after_check_h_def view_outcome_def after_check_def)
  next
    case (Inr p)
    obtain ok out where p: "p = (ok, out)" by (cases p)
    show ?thesis
    proof (cases ok)
      case False
      then show ?thesis using Inr p
        by (simp add: unf pure after_check_h_def view_outcome_def after_check_def)
    next
      case True
      show ?thesis
      proof (cases "cg_loop Am (xv, ?r0, ?r0) 1")
        case None
        then have "?lh = None" using run by simp
        then show ?thesis using Inr p True None
          by (simp add: unf pure after_check_h_def view_outcome_def after_check_def)
      next
        case (Some r)
        then obtain x' c s' where h: "?lh = Some ((x', c), s')" "r = (get_vec s' x', c)"
          using run by (auto simp: map_option_case split: option.splits)
        then show ?thesis using Inr p True Some
          by (simp add: unf pure after_check_h_def view_outcome_def after_check_def)
      qed
    qed
  qed
qed

lemma holds_unchanged: "holds s r a \<Longrightarrow> unchanged_below (length s) s s' \<Longrightarrow> holds s' r a"
  by (auto simp: holds_def unchanged_below_def)

text \<open>
  C9. When a call of a solver returns, every array that existed when it was called, the
  caller's \<open>A\<close>, \<open>b\<close> and \<open>x0\<close> among them, holds what it held before: the solver assigns
  only into its copies and into the arrays it has made itself. So the caller's references
  still hold the same system, the result is the one computed from the values passed in,
  and a second call with the same references computes this result again.
\<close>

theorem solvers_keep_caller_arrays:
  "(pivot_gauss_h A b s = (x, s') \<longrightarrow>
      unchanged_below (length s) s s'
      \<and> (holds s A (Mat Am) \<and> holds s b (Vec bv) \<longrightarrow>
           holds s' A (Mat Am) \<and> holds s' b (Vec bv)
           \<and> get_vec s' x = pivot_gauss Am bv
           \<and> get_vec (snd (pivot_gauss_h A b s')) (fst (pivot_gauss_h A b s')) = pivot_gauss Am bv))
   \<and> (lu_decomposition_doolittle_h A b s = (x, s') \<longrightarrow>
      unchanged_below (length s) s s'
      \<and> (holds s A (Mat Am) \<and> holds s b (Vec bv) \<longrightarrow>
           holds s' A (Mat Am) \<and> holds s' b (Vec bv)
           \<and> get_vec s' x = lu_decomposition_doolittle Am bv
           \<and> get_vec (snd (lu_decomposition_doolittle_h A b s'))
                (fst (lu_decomposition_doolittle_h A b s')) = lu_decomposition_doolittle Am bv))
   \<and> (jacobi_h linv eigvals A b x0 s = Some (res, s') \<longrightarrow>
      unchanged_below (length s) s s'
      \<and> (holds s A (Mat Am) \<and> holds s b (Vec bv) \<and> holds s x0 (Vec xv) \<longrightarrow>
           holds s' A (Mat Am) \<and> holds s' b (Vec bv) \<and> holds s' x0 (Vec xv)
           \<and> view_outcome (Some (res, s')) = jacobi linv eigvals Am bv xv
           \<and> view_outcome (jacobi_h linv eigvals A b x0 s') = jacobi linv eigvals Am bv xv))
   \<and> (gauss_seidel_h linv eigvals A b x0 s = Some (res, s') \<longrightarrow>
      unchanged_below (length s) s s'
      \<and> (holds s A (Mat Am) \<and> holds s b (Vec bv) \<and> holds s x0 (Vec xv) \<longrightarrow>
           holds s' A (Mat Am) \<and> holds s' b (Vec bv) \<and> holds s' x0 (Vec xv)
           \<and> view_outcome (Some (res, s')) = gauss_seidel linv eigvals Am bv xv
           \<and> view_outcome (gauss_seidel_h linv eigvals A b x0 s') = gauss_seidel linv eigvals Am bv xv))
   \<and> (successive_over_relaxation_h linv eigvals A b w x0 s = Some (res, s') \<longrightarrow>
      unchanged_below (length s) s s'
      \<and> (holds s A (Mat Am) \<and> holds s b (Vec bv) \<and> holds s x0 (Vec xv) \<longrightarrow>
           holds s' A (Mat Am) \<and> holds s' b (Vec bv) \<and> holds s' x0 (Vec xv)
           \<and> view_outcome (Some (res, s')) = successive_over_relaxation linv eigvals Am bv w xv
           \<and> view_outcome (successive_over_relaxation_h linv eigvals A b w x0 s')
               = successive_over_relaxation linv eigvals Am bv w xv))
   \<and> (conjugate_gradient_h eigvals A b x0 s = Some (res, s') \<longrightarrow>
      unchanged_below (length s) s s'
      \<and> (holds s A (Mat Am) \<and> holds s b (Vec bv) \<and> holds s x0 (Vec xv) \<longrightarrow>
           holds s' A (Mat Am) \<and> holds s' b (Vec bv) \<and> holds s' x0 (Vec xv)
           \<and> view_outcome (Some (res, s')) = conjugate_gradient eigvals Am bv xv
           \<and> view_outcome (conjugate_gradient_h eigvals A b x0 s') = conjugate_gradient eigvals Am bv xv))"
proof (intro conjI impI)
  assume r: "pivot_gauss_h A b s = (x, s')"
  then show u: "unchanged_below (length s) s s'" by (rule pivot_gauss_h_frame)
  assume h: "holds s A (Mat Am) \<and> holds s b (Vec bv)"
  then show h': "holds s' A (Mat Am)" "holds s' b (Vec bv)" using u by (blast intro: holds_unchanged)+
  from h pivot_gauss_h_value[of s A Am b bv] r
  show "get_vec s' x = pivot_gauss Am bv" by (auto simp: holds_def get_vec_def nth_append)
  from h' pivot_gauss_h_value[of s' A Am b bv]
  show "get_vec (snd (pivot_gauss_h A b s')) (fst (pivot_gauss_h A b s')) = pivot_gauss Am bv"
    by (auto simp: holds_def get_vec_def nth_append)
next
  assume r: "lu_decomposition_doolittle_h A b s = (x, s')"
  then show u: "unchanged_below (length s) s s'" by (rule lu_decomposition_doolittle_h_frame)
  assume h: "holds s A (Mat Am) \<and> holds s b (Vec bv)"
  then show h': "holds s' A (Mat Am)" "holds s' b (Vec bv)" using u by (blast intro: holds_unchanged)+
  from h lu_decomposition_doolittle_h_value[of s A Am b bv] r
  show "get_vec s' x = lu_decomposition_doolittle Am bv" by (auto simp: holds_def get_vec_def nth_append)
  from h' lu_decomposition_doolittle_h_value[of s' A Am b bv]
  show "get_vec (snd (lu_decomposition_doolittle_h A b s'))
          (fst (lu_decomposition_doolittle_h A b s')) = lu_decomposition_doolittle Am bv"
    by (auto simp: holds_def get_vec_def nth_append)
next
  assume r: "jacobi_h linv eigvals A b x0 s = Some (res, s')"
  then show u: "unchanged_below (length s) s s'" by (rule jacobi_h_frame)
  assume h: "holds s A (Mat Am) \<and> holds s b (Vec bv) \<and> holds s x0 (Vec xv)"
  then show h': "holds s' A (Mat Am)" "holds s' b (Vec bv)" "holds s' x0 (Vec xv)"
    using u by (blast intro: holds_unchanged)+
  from h jacobi_h_value[of s A Am b bv x0 xv linv eigvals] r
  show "view_outcome (Some (res, s')) = jacobi linv eigvals Am bv xv" by (simp add: holds_def)
  from h' jacobi_h_value[of s' A Am b bv x0 xv linv eigvals]
  show "view_outcome (jacobi_h linv eigvals A b x0 s') = jacobi linv eigvals Am bv xv"
    by (simp add: holds_def)
next
  assume r: "gauss_seidel_h linv eigvals A b x0 s = Some (res, s')"
  then show u: "unchanged_below (length s) s s'" by (rule gauss_seidel_h_frame)
  assume h: "holds s A (Mat Am) \<and> holds s b (Vec bv) \<and> holds s x0 (Vec xv)"
  then show h': "holds s' A (Mat Am)" "holds s' b (Vec bv)" "holds s' x0 (Vec xv)"
    using u by (blast intro: holds_unchanged)+
  from h gauss_seidel_h_value[of s A Am b bv x0 xv linv eigvals] r
  show "view_outcome (Some (res, s')) = gauss_seidel linv eigvals Am bv xv" by (simp add: holds_def)
  from h' gauss_seidel_h_value[of s' A Am b bv x0 xv linv eigvals]
  show "view_outcome (gauss_seidel_h linv eigvals A b x0 s') = gauss_seidel linv eigvals Am bv xv"
    by (simp add: holds_def)
next
  assume r: "successive_over_relaxation_h linv eigvals A b w x0 s = Some (res, s')"
  then show u: "unchanged_below (length s) s s'" by (rule successive_over_relaxation_h_frame)
  assume h: "holds s A (Mat Am) \<and> holds s b (Vec bv) \<and> holds s x0 (Vec xv)"
  then show h': "holds s' A (Mat Am)" "holds s' b (Vec bv)" "holds s' x0 (Vec xv)"
    using u by (blast intro: holds_unchanged)+
  from h successive_over_relaxation_h_value[of s A Am b bv x0 xv linv eigvals w] r
  show "view_outcome (Some (res, s')) = successive_over_relaxation linv eigvals Am bv w xv"
    by (simp add: holds_def)
  from h' successive_over_relaxation_h_value[of s' A Am b bv x0 xv linv eigvals w]
  show "view_outcome (successive_over_relaxation_h linv eigvals A b w x0 s')
          = successive_over_relaxation linv eigvals Am bv w xv"
    by (simp add: holds_def)
next
  assume r: "conjugate_gradient_h eigvals A b x0 s = Some (res, s')"
  then show u: "unchanged_below (length s) s s'" by (rule conjugate_gradient_h_frame)
  assume h: "holds s A (Mat Am) \<and> holds s b (Vec bv) \<and> holds s x0 (Vec xv)"
  then show h': "holds s' A (Mat Am)" "holds s' b (Vec bv)" "holds s' x0 (Vec xv)"
    using u by (blast intro: holds_unchanged)+
  from h conjugate_gradient_h_value[of s A Am b bv x0 xv eigvals] r
  show "view_outcome (Some (res, s')) = conjugate_gradient eigvals Am bv xv" by (simp add: holds_def)
  from h' conjugate_gradient_h_value[of s' A Am b bv x0 xv eigvals]
  show "view_outcome (conjugate_gradient_h eigvals A b x0 s') = conjugate_gradient eigvals Am bv xv"
    by (simp add: holds_def)
qed


theorem solvers_keep_caller_arrays_witness:
  "unchanged_below 3 (store1 0) (snd (pivot_gauss_h 0 1 (store1 0)))
   \<and> get_vec (snd (pivot_gauss_h 0 1 (snd (pivot_gauss_h 0 1 (store1 0)))))
         (fst (pivot_gauss_h 0 1 (snd (pivot_gauss_h 0 1 (store1 0)))))
       = pivot_gauss [[Fin 1]] [Fin 1]
   \<and> unchanged_below 3 (store1 0) (snd (lu_decomposition_doolittle_h 0 1 (store1 0)))
   \<and> (\<exists>res s'. jacobi_h linv1 eigvals1 0 1 2 (store1 0) = Some (res, s')
          \<and> unchanged_below 3 (store1 0) s'
          \<and> view_outcome (jacobi_h linv1 eigvals1 0 1 2 s') = Some (Inr (Solved [Fin 1] 2, [])))
   \<and> (\<exists>res s'. gauss_seidel_h linv1 eigvals1 0 1 2 (store1 0) = Some (res, s')
          \<and> unchanged_below 3 (store1 0) s'
          \<and> view_outcome (gauss_seidel_h linv1 eigvals1 0 1 2 s') = Some (Inr (Solved [Fin 1] 2, [])))
   \<and> (\<exists>res s'. successive_over_relaxation_h linv1 eigvals1 0 1 (Fin (3 / 2)) 2 (store1 1) = Some (res, s')
          \<and> unchanged_below 3 (store1 1) s'
          \<and> view_outcome (successive_over_relaxation_h linv1 eigvals1 0 1 (Fin (3 / 2)) 2 s')
              = Some (Inr (Solved [Fin 1] 1, [])))
   \<and> (\<exists>res s'. conjugate_gradient_h eigvals1 0 1 2 (store1 (1 - 1 / 10 ^ 7)) = Some (res, s')
          \<and> unchanged_below 3 (store1 (1 - 1 / 10 ^ 7)) s'
          \<and> view_outcome (conjugate_gradient_h eigvals1 0 1 2 s') = Some (Inr (Solved [Fin 1] 2, [])))"
proof (intro conjI)
  have len: "length (store1 v) = 3" for v by (simp add: store1_def)
  have hold: "holds (store1 v) 0 (Mat [[Fin 1]])" "holds (store1 v) (Suc 0) (Vec [Fin 1])"
    "holds (store1 v) 2 (Vec [Fin v])" for v
    by (simp_all add: holds_def store1_def)
  note pg = solvers_keep_caller_arrays
      [where A = 0 and b = 1 and s = "store1 0" and x = "fst (pivot_gauss_h 0 1 (store1 0))"
         and s' = "snd (pivot_gauss_h 0 1 (store1 0))" and Am = "[[Fin 1]]" and bv = "[Fin 1]",
       THEN conjunct1]
  show "unchanged_below 3 (store1 0) (snd (pivot_gauss_h 0 1 (store1 0)))"
    using pg by (simp add: len)
  show "get_vec (snd (pivot_gauss_h 0 1 (snd (pivot_gauss_h 0 1 (store1 0)))))
         (fst (pivot_gauss_h 0 1 (snd (pivot_gauss_h 0 1 (store1 0)))))
       = pivot_gauss [[Fin 1]] [Fin 1]"
    using pg by (simp add: len hold)
  show "unchanged_below 3 (store1 0) (snd (lu_decomposition_doolittle_h 0 1 (store1 0)))"
    using solvers_keep_caller_arrays
      [where A = 0 and b = 1 and s = "store1 0"
         and x = "fst (lu_decomposition_doolittle_h 0 1 (store1 0))"
         and s' = "snd (lu_decomposition_doolittle_h 0 1 (store1 0))"
         and Am = "[[Fin 1]]" and bv = "[Fin 1]",
       THEN conjunct2, THEN conjunct1]
    by (simp add: len)
  show "\<exists>res s'. jacobi_h linv1 eigvals1 0 1 2 (store1 0) = Some (res, s')
          \<and> unchanged_below 3 (store1 0) s'
          \<and> view_outcome (jacobi_h linv1 eigvals1 0 1 2 s') = Some (Inr (Solved [Fin 1] 2, []))"
  proof -
    obtain res s' where r: "jacobi_h linv1 eigvals1 0 1 2 (store1 0) = Some (res, s')"
      using jacobi_h_run1 by blast
    have "unchanged_below 3 (store1 0) s'
          \<and> view_outcome (jacobi_h linv1 eigvals1 0 1 2 s') = Some (Inr (Solved [Fin 1] 2, []))"
      using solvers_keep_caller_arrays
          [where A = 0 and b = 1 and x0 = 2 and s = "store1 0" and s' = s' and res = res
             and Am = "[[Fin 1]]" and bv = "[Fin 1]" and xv = "[Fin 0]" and linv = linv1 and eigvals = eigvals1,
           THEN conjunct2, THEN conjunct2, THEN conjunct1]
        r jacobi_run1
      by (simp add: len hold)
    with r show ?thesis by blast
  qed
  show "\<exists>res s'. gauss_seidel_h linv1 eigvals1 0 1 2 (store1 0) = Some (res, s')
          \<and> unchanged_below 3 (store1 0) s'
          \<and> view_outcome (gauss_seidel_h linv1 eigvals1 0 1 2 s') = Some (Inr (Solved [Fin 1] 2, []))"
  proof -
    obtain res s' where r: "gauss_seidel_h linv1 eigvals1 0 1 2 (store1 0) = Some (res, s')"
      using gauss_seidel_h_run1 by blast
    have "unchanged_below 3 (store1 0) s'
          \<and> view_outcome (gauss_seidel_h linv1 eigvals1 0 1 2 s') = Some (Inr (Solved [Fin 1] 2, []))"
      using solvers_keep_caller_arrays
          [where A = 0 and b = 1 and x0 = 2 and s = "store1 0" and s' = s' and res = res
             and Am = "[[Fin 1]]" and bv = "[Fin 1]" and xv = "[Fin 0]" and linv = linv1 and eigvals = eigvals1,
           THEN conjunct2, THEN conjunct2, THEN conjunct2, THEN conjunct1]
        r gauss_seidel_run1
      by (simp add: len hold)
    with r show ?thesis by blast
  qed
  show "\<exists>res s'. successive_over_relaxation_h linv1 eigvals1 0 1 (Fin (3 / 2)) 2 (store1 1) = Some (res, s')
          \<and> unchanged_below 3 (store1 1) s'
          \<and> view_outcome (successive_over_relaxation_h linv1 eigvals1 0 1 (Fin (3 / 2)) 2 s') = Some (Inr (Solved [Fin 1] 1, []))"
  proof -
    obtain res s' where r: "successive_over_relaxation_h linv1 eigvals1 0 1 (Fin (3 / 2)) 2 (store1 1) = Some (res, s')"
      using sor_h_run1 by blast
    have "unchanged_below 3 (store1 1) s'
          \<and> view_outcome (successive_over_relaxation_h linv1 eigvals1 0 1 (Fin (3 / 2)) 2 s') = Some (Inr (Solved [Fin 1] 1, []))"
      using solvers_keep_caller_arrays
          [where A = 0 and b = 1 and x0 = 2 and s = "store1 1" and s' = s' and res = res
             and Am = "[[Fin 1]]" and bv = "[Fin 1]" and xv = "[Fin 1]" and linv = linv1 and eigvals = eigvals1 and w = "Fin (3 / 2)",
           THEN conjunct2, THEN conjunct2, THEN conjunct2, THEN conjunct2, THEN conjunct1]
        r sor_run1
      by (simp add: len hold)
    with r show ?thesis by blast
  qed
  show "\<exists>res s'. conjugate_gradient_h eigvals1 0 1 2 (store1 (1 - 1 / 10 ^ 7)) = Some (res, s')
          \<and> unchanged_below 3 (store1 (1 - 1 / 10 ^ 7)) s'
          \<and> view_outcome (conjugate_gradient_h eigvals1 0 1 2 s') = Some (Inr (Solved [Fin 1] 2, []))"
  proof -
    obtain res s' where r: "conjugate_gradient_h eigvals1 0 1 2 (store1 (1 - 1 / 10 ^ 7)) = Some (res, s')"
      using cg_h_run1 by blast
    have "unchanged_below 3 (store1 (1 - 1 / 10 ^ 7)) s'
          \<and> view_outcome (conjugate_gradient_h eigvals1 0 1 2 s') = Some (Inr (Solved [Fin 1] 2, []))"
      using solvers_keep_caller_arrays
          [where A = 0 and b = 1 and x0 = 2 and s = "store1 (1 - 1 / 10 ^ 7)" and s' = s' and res = res
             and Am = "[[Fin 1]]" and bv = "[Fin 1]" and xv = "[Fin (1 - 1 / 10 ^ 7)]" and eigvals = eigvals1,
           THEN conjunct2, THEN conjunct2, THEN conjunct2, THEN conjunct2, THEN conjunct2]
        r cg_run1
      by (simp add: len hold)
    with r show ?thesis by blast
  qed
qed

end
